theory Spec2Isabelle
  imports Complex_Main "HOL-Library.AList" "HOL-Library.Multiset"
begin

section \<open>Paths and file names (the functions of \<open>os.path\<close> that the services call)\<close>

text \<open>
  Paths are POSIX paths, a \<open>string\<close> of bytes with \<open>/\<close> as separator.
  \<open>basename\<close>, \<open>dirname\<close> and \<open>splitext\<close> follow \<open>posixpath\<close>:
  \<open>basename p\<close> is what follows the last \<open>/\<close>; \<open>splitext\<close> splits at the last dot
  of the last component unless only dots precede it.
\<close>

definition basename :: "string \<Rightarrow> string" where
  "basename p = rev (takeWhile (\<lambda>c. c \<noteq> CHR ''/'') (rev p))"

definition dirname :: "string \<Rightarrow> string" where
  "dirname p =
     (let head = rev (dropWhile (\<lambda>c. c \<noteq> CHR ''/'') (rev p))
      in if head \<noteq> [] \<and> filter (\<lambda>c. c \<noteq> CHR ''/'') head \<noteq> []
         then rev (dropWhile (\<lambda>c. c = CHR ''/'') (rev head))
         else head)"

text \<open>The second component of \<open>os.path.splitext\<close>: the extension, with its dot, or empty.\<close>

definition splitext_ext :: "string \<Rightarrow> string" where
  "splitext_ext p =
     (let b = rev (basename p)
      in case dropWhile (\<lambda>c. c \<noteq> CHR ''.'') b of
           [] \<Rightarrow> []
         | d # stem \<Rightarrow>
             if filter (\<lambda>c. c \<noteq> CHR ''.'') stem = [] then []
             else d # rev (takeWhile (\<lambda>c. c \<noteq> CHR ''.'') b))"

text \<open>
  \<open>str.lower\<close> on the letters that matter for the comparison with \<open>.db\<close> and
  \<open>.json\<close>: the ASCII capitals. No other code point lowers to one of the letters
  d, b, j, s, o, n, so on UTF-8 bytes the comparison comes out as in Python.
\<close>

definition lower_char :: "char \<Rightarrow> char" where
  "lower_char c =
     (case map_of (zip ''ABCDEFGHIJKLMNOPQRSTUVWXYZ'' ''abcdefghijklmnopqrstuvwxyz'') c of
        None \<Rightarrow> c
      | Some l \<Rightarrow> l)"

definition lower :: "string \<Rightarrow> string" where
  "lower s = map lower_char s"

text \<open>\<open>filename.startswith('.')\<close>\<close>

definition startswith_dot :: "string \<Rightarrow> bool" where
  "startswith_dot s = (case s of [] \<Rightarrow> False | c # _ \<Rightarrow> c = CHR ''.'')"

section \<open>The file system\<close>

text \<open>
  A regular file is its bytes and its modification time (seconds since the epoch, the
  float \<open>st_mtime\<close> read as a real number). A directory tree is the list of its regular
  files in the order \<open>os.walk\<close> yields them, each under its path relative to the root
  (what \<open>os.path.relpath\<close> returns); directories themselves are not recorded. The file
  system maps a root path to its tree, \<open>None\<close> when the root does not exist. A file is
  addressed by a location: the root and the relative path that \<open>os.path.join\<close> glues
  together. Trees of different roots do not overlap.
\<close>

record regular_file =
  content :: string
  st_mtime :: real

type_synonym tree = "(string \<times> regular_file) list"
type_synonym filesystem = "string \<Rightarrow> tree option"
type_synonym location = "string \<times> string"

definition read_file :: "filesystem \<Rightarrow> location \<Rightarrow> regular_file option" where
  "read_file fs loc = (case fs (fst loc) of None \<Rightarrow> None | Some t \<Rightarrow> map_of t (snd loc))"

text \<open>
  What the operating system decides: which calls fail, with which message, and the MD5
  digest. A failure is persistent: the same call on the same location fails again.
\<close>

record os_env =
  stat_error :: "location \<Rightarrow> string option"
  open_error :: "location \<Rightarrow> string option"
  makedirs_error :: "location \<Rightarrow> string option"
  copy_error :: "location \<Rightarrow> location \<Rightarrow> string option"
  remove_error :: "location \<Rightarrow> string option"
  md5 :: "string \<Rightarrow> string"

text \<open>\<open>shutil.copy2\<close>: bytes and modification time; nothing is written when it fails.\<close>

definition copy2 :: "os_env \<Rightarrow> filesystem \<Rightarrow> location \<Rightarrow> location \<Rightarrow> string + filesystem" where
  "copy2 E fs src dst =
     (case copy_error E src dst of
        Some e \<Rightarrow> Inl e
      | None \<Rightarrow>
         (case read_file fs src of
            None \<Rightarrow> Inl ''No such file or directory''
          | Some f \<Rightarrow>
             (case fs (fst dst) of
                None \<Rightarrow> Inl ''No such file or directory''
              | Some t \<Rightarrow> Inr (fs(fst dst \<mapsto> AList.update (snd dst) f t)))))"

text \<open>\<open>os.remove\<close>\<close>

definition os_remove :: "os_env \<Rightarrow> filesystem \<Rightarrow> location \<Rightarrow> string + filesystem" where
  "os_remove E fs loc =
     (case remove_error E loc of
        Some e \<Rightarrow> Inl e
      | None \<Rightarrow>
         (case fs (fst loc) of
            None \<Rightarrow> Inl ''No such file or directory''
          | Some t \<Rightarrow>
             (case map_of t (snd loc) of
                None \<Rightarrow> Inl ''No such file or directory''
              | Some f \<Rightarrow> Inr (fs(fst loc \<mapsto> AList.delete (snd loc) t)))))"

section \<open>\<open>SyncService\<close> (app/services/sync\_service.py)\<close>

record sync_service =
  source_path :: string
  replica_paths :: "string list"

text \<open>
  The metadata dictionary of one file: keys \<open>path\<close>, \<open>size\<close> (here \<open>fsize\<close>),
  \<open>mtime\<close>, \<open>relative_path\<close>. A catalog is the dictionary from relative path to
  metadata, in insertion order.
\<close>

record file_meta =
  path :: location
  fsize :: nat
  mtime :: real
  relative_path :: string

type_synonym catalog = "(string \<times> file_meta) list"

text \<open>\<open>calculate_file_hash\<close>: raises when the file cannot be opened.\<close>

definition calculate_file_hash :: "os_env \<Rightarrow> filesystem \<Rightarrow> location \<Rightarrow> string + string" where
  "calculate_file_hash E fs filepath =
     (case open_error E filepath of
        Some e \<Rightarrow> Inl e
      | None \<Rightarrow>
         (case read_file fs filepath of
            None \<Rightarrow> Inl ''No such file or directory''
          | Some f \<Rightarrow> Inr (md5 E (content f))))"

text \<open>
  The walk shared by \<open>get_calibre_files\<close> and \<open>get_replica_files\<close>: hidden files are
  skipped, a file whose \<open>os.stat\<close> fails is logged and skipped, every other file is
  stored under its relative path.
\<close>

fun scan_files :: "os_env \<Rightarrow> string \<Rightarrow> tree \<Rightarrow> catalog \<Rightarrow> catalog" where
  "scan_files E tree_root [] files_data = files_data"
| "scan_files E tree_root ((rel, f) # rest) files_data =
     (if startswith_dot (basename rel) then scan_files E tree_root rest files_data
      else
        (case stat_error E (tree_root, rel) of
           Some e \<Rightarrow> scan_files E tree_root rest files_data
         | None \<Rightarrow>
            scan_files E tree_root rest
              (AList.update rel
                 \<lparr>path = (tree_root, rel), fsize = length (content f),
                  mtime = st_mtime f, relative_path = rel\<rparr>
                 files_data)))"

definition get_calibre_files :: "os_env \<Rightarrow> sync_service \<Rightarrow> filesystem \<Rightarrow> catalog" where
  "get_calibre_files E self fs =
     (case fs (source_path self) of
        None \<Rightarrow> []
      | Some t \<Rightarrow> scan_files E (source_path self) t [])"

definition get_replica_files :: "os_env \<Rightarrow> string \<Rightarrow> filesystem \<Rightarrow> catalog" where
  "get_replica_files E replica_path fs =
     (case fs replica_path of
        None \<Rightarrow> []
      | Some t \<Rightarrow> scan_files E replica_path t [])"

text \<open>
  \<open>get_destination_path\<close>: the destination location; outside dry-run mode it creates
  the parent directories first, which may raise.
\<close>

definition get_destination_path ::
  "os_env \<Rightarrow> string \<Rightarrow> file_meta \<Rightarrow> bool \<Rightarrow> string + location" where
  "get_destination_path E replica_path original_file dry_run =
     (let destination_path = (replica_path, relative_path original_file)
      in if \<not> dry_run
         then (case makedirs_error E (replica_path, dirname (relative_path original_file)) of
                 Some e \<Rightarrow> Inl e
               | None \<Rightarrow> Inr destination_path)
         else Inr destination_path)"

record stats =
  added :: int
  updated :: int
  deleted :: int
  unchanged :: int
  ignored :: int
  errors :: int
  added_files :: "string list"
  updated_files :: "string list"
  deleted_files :: "string list"
  ignored_files :: "string list"
  error_files :: "string list"

definition empty_stats :: stats where
  "empty_stats =
     \<lparr>added = 0, updated = 0, deleted = 0, unchanged = 0, ignored = 0, errors = 0,
      added_files = [], updated_files = [], deleted_files = [], ignored_files = [],
      error_files = []\<rparr>"

text \<open>The test of line 148: an ignored extension, and not the whitelisted name.\<close>

definition is_ignored :: "string \<Rightarrow> bool" where
  "is_ignored rel_path =
     (let filename = basename rel_path;
          file_ext = lower (splitext_ext filename)
      in (file_ext = ''.db'' \<or> file_ext = ''.json'') \<and> filename \<noteq> ''metadata.db'')"

text \<open>The test of line 212: the names that are never deleted from a replica.\<close>

definition is_protected :: "string \<Rightarrow> bool" where
  "is_protected dest_relative_path =
     (let dest_filename = basename dest_relative_path
      in dest_filename = ''metadata.db'' \<or> dest_filename = ''metadata_db_prefs_backup.json'')"

text \<open>
  The two \<open>try\<close> blocks that copy a file (lines 163 to 172 and 189 to 197): on success
  the counter and list of the action grow, on failure those of the errors.
\<close>

definition count_added :: "string \<Rightarrow> stats \<Rightarrow> stats" where
  "count_added rel st = st\<lparr>added := added st + 1, added_files := added_files st @ [rel]\<rparr>"

definition count_updated :: "string \<Rightarrow> stats \<Rightarrow> stats" where
  "count_updated rel st = st\<lparr>updated := updated st + 1, updated_files := updated_files st @ [rel]\<rparr>"

definition count_deleted :: "string \<Rightarrow> stats \<Rightarrow> stats" where
  "count_deleted name st = st\<lparr>deleted := deleted st + 1, deleted_files := deleted_files st @ [name]\<rparr>"

definition count_error :: "string \<Rightarrow> stats \<Rightarrow> stats" where
  "count_error name st = st\<lparr>errors := errors st + 1, error_files := error_files st @ [name]\<rparr>"

definition count_ignored :: "string \<Rightarrow> stats \<Rightarrow> stats" where
  "count_ignored rel st = st\<lparr>ignored := ignored st + 1, ignored_files := ignored_files st @ [rel]\<rparr>"

definition count_unchanged :: "stats \<Rightarrow> stats" where
  "count_unchanged st = st\<lparr>unchanged := unchanged st + 1\<rparr>"

text \<open>
  The branch of lines 160 to 176: the file is not in the destination catalog. Outside
  dry-run mode it is copied, and a failure of \<open>os.makedirs\<close> or of the copy is
  caught and counted as an error.
\<close>

definition add_missing_file ::
  "os_env \<Rightarrow> bool \<Rightarrow> string \<Rightarrow> file_meta \<Rightarrow> location \<Rightarrow> stats \<Rightarrow> filesystem \<Rightarrow>
   stats \<times> filesystem" where
  "add_missing_file E dry_run rel_path source_meta dest_path st fs =
     (if \<not> dry_run
      then (case makedirs_error E (fst dest_path, dirname (snd dest_path)) of
              Some e \<Rightarrow> (count_error rel_path st, fs)
            | None \<Rightarrow>
               (case copy2 E fs (path source_meta) dest_path of
                  Inl e \<Rightarrow> (count_error rel_path st, fs)
                | Inr fs' \<Rightarrow> (count_added rel_path st, fs')))
      else (count_added rel_path st, fs))"

text \<open>
  The branch of lines 178 to 205: the file is in the destination catalog. The hashes are
  computed only when size or modification time differ; computing them may raise.
\<close>

definition update_existing_file ::
  "os_env \<Rightarrow> bool \<Rightarrow> string \<Rightarrow> file_meta \<Rightarrow> file_meta \<Rightarrow> location \<Rightarrow> stats \<Rightarrow> filesystem \<Rightarrow>
   string + stats \<times> filesystem" where
  "update_existing_file E dry_run rel_path source_meta dest_meta dest_path st fs =
     (if fsize source_meta \<noteq> fsize dest_meta \<or> \<bar>mtime source_meta - mtime dest_meta\<bar> > 1
      then
        (case calculate_file_hash E fs (path source_meta) of
           Inl e \<Rightarrow> Inl e
         | Inr source_hash \<Rightarrow>
            (case calculate_file_hash E fs (path dest_meta) of
               Inl e \<Rightarrow> Inl e
             | Inr dest_hash \<Rightarrow>
                if source_hash \<noteq> dest_hash
                then
                  if \<not> dry_run
                  then (case copy2 E fs (path source_meta) dest_path of
                          Inl e \<Rightarrow> Inr (count_error rel_path st, fs)
                        | Inr fs' \<Rightarrow> Inr (count_updated rel_path st, fs'))
                  else Inr (count_updated rel_path st, fs)
                else Inr (count_unchanged st, fs)))
      else Inr (count_unchanged st, fs))"

text \<open>
  The body of the first loop of \<open>sync_folder\<close> (lines 141 to 205) for one entry of the
  source catalog. \<open>Inl\<close> is an exception that leaves the loop (from
  \<open>get_destination_path\<close> or \<open>calculate_file_hash\<close>); the file system is then as
  it was before this entry.
\<close>

definition process_source_file ::
  "os_env \<Rightarrow> string \<Rightarrow> bool \<Rightarrow> catalog \<Rightarrow> string \<times> file_meta \<Rightarrow>
   stats \<times> string set \<times> filesystem \<Rightarrow> string + stats \<times> string set \<times> filesystem" where
  "process_source_file E destination dry_run dest_files item state =
     (case (item, state) of ((rel_path, source_meta), (st, processed_dest_files, fs)) \<Rightarrow>
        if is_ignored rel_path
        then Inr (count_ignored rel_path st, processed_dest_files, fs)
        else
          (case get_destination_path E destination source_meta dry_run of
             Inl e \<Rightarrow> Inl e
           | Inr dest_path \<Rightarrow>
              (case map_of dest_files rel_path of
                 None \<Rightarrow>
                   (case add_missing_file E dry_run rel_path source_meta dest_path st fs of
                      (st', fs') \<Rightarrow> Inr (st', insert rel_path processed_dest_files, fs'))
               | Some dest_meta \<Rightarrow>
                   (case update_existing_file E dry_run rel_path source_meta dest_meta
                           dest_path st fs of
                      Inl e \<Rightarrow> Inl e
                    | Inr (st', fs') \<Rightarrow> Inr (st', insert rel_path processed_dest_files, fs')))))"

text \<open>
  The first loop. When an entry raises, the loop ends with the exception and the file
  system as the entries before it left it.
\<close>

fun source_loop ::
  "os_env \<Rightarrow> string \<Rightarrow> bool \<Rightarrow> catalog \<Rightarrow> catalog \<Rightarrow>
   stats \<times> string set \<times> filesystem \<Rightarrow> (string + stats \<times> string set) \<times> filesystem" where
  "source_loop E destination dry_run dest_files [] state =
     (case state of (st, processed, fs) \<Rightarrow> (Inr (st, processed), fs))"
| "source_loop E destination dry_run dest_files (item # items) state =
     (case process_source_file E destination dry_run dest_files item state of
        Inl e \<Rightarrow> (Inl e, snd (snd state))
      | Inr state' \<Rightarrow> source_loop E destination dry_run dest_files items state')"

text \<open>
  The body of the second loop (lines 208 to 229) for one entry of the destination
  catalog. In dry-run mode the list of deleted files receives the file name, outside it
  the relative path; a failed removal is listed under the file name.
\<close>

definition process_dest_file ::
  "os_env \<Rightarrow> bool \<Rightarrow> string set \<Rightarrow> string \<times> file_meta \<Rightarrow>
   stats \<times> filesystem \<Rightarrow> stats \<times> filesystem" where
  "process_dest_file E dry_run processed_dest_files item state =
     (case (item, state) of ((dest_relative_path, dest_meta), (st, fs)) \<Rightarrow>
        if dest_relative_path \<notin> processed_dest_files
        then
          let dest_filename = basename dest_relative_path
          in if is_protected dest_relative_path then (st, fs)
             else if \<not> dry_run
             then (case os_remove E fs (path dest_meta) of
                     Inr fs' \<Rightarrow> (count_deleted dest_relative_path st, fs')
                   | Inl e \<Rightarrow> (count_error dest_filename st, fs))
             else (count_deleted dest_filename st, fs)
        else (st, fs))"

fun dest_loop ::
  "os_env \<Rightarrow> bool \<Rightarrow> string set \<Rightarrow> catalog \<Rightarrow> stats \<times> filesystem \<Rightarrow> stats \<times> filesystem" where
  "dest_loop E dry_run processed [] state = state"
| "dest_loop E dry_run processed (item # items) state =
     dest_loop E dry_run processed items (process_dest_file E dry_run processed item state)"

text \<open>
  \<open>sync_folder\<close>: the statistics, or the exception that left it, and the file system
  afterwards.
\<close>

definition sync_folder ::
  "os_env \<Rightarrow> sync_service \<Rightarrow> string \<Rightarrow> bool \<Rightarrow> filesystem \<Rightarrow> (string + stats) \<times> filesystem" where
  "sync_folder E self destination dry_run fs =
     (case (if fs destination = None \<and> \<not> dry_run
            then (case makedirs_error E (destination, []) of
                    Some e \<Rightarrow> Inl e
                  | None \<Rightarrow> Inr (fs(destination \<mapsto> [])))
            else Inr fs) of
        Inl e \<Rightarrow> (Inl e, fs)
      | Inr fs1 \<Rightarrow>
         let source_files = get_calibre_files E self fs1;
             dest_files = get_replica_files E destination fs1
         in (case source_loop E destination dry_run dest_files source_files
                    (empty_stats, {}, fs1) of
               (Inl e, fs2) \<Rightarrow> (Inl e, fs2)
             | (Inr (st, processed), fs2) \<Rightarrow>
                 (case dest_loop E dry_run processed dest_files (st, fs2) of
                    (st', fs3) \<Rightarrow> (Inr st', fs3))))"

text \<open>
  \<open>sync_all\<close>: the dictionary from replica path to the statistics or, as \<open>Inl\<close>, to
  \<open>{"error": str(e)}\<close>.
\<close>

type_synonym results = "(string \<times> (string + stats)) list"

fun sync_all_loop ::
  "os_env \<Rightarrow> sync_service \<Rightarrow> bool \<Rightarrow> string list \<Rightarrow> results \<times> filesystem \<Rightarrow>
   results \<times> filesystem" where
  "sync_all_loop E self dry_run [] state = state"
| "sync_all_loop E self dry_run (replica # rest) state =
     (case sync_folder E self replica dry_run (snd state) of
        (r, fs') \<Rightarrow> sync_all_loop E self dry_run rest (AList.update replica r (fst state), fs'))"

definition sync_all :: "os_env \<Rightarrow> sync_service \<Rightarrow> bool \<Rightarrow> filesystem \<Rightarrow> results \<times> filesystem" where
  "sync_all E self dry_run fs = sync_all_loop E self dry_run (replica_paths self) ([], fs)"

section \<open>\<open>SyncHistoryService\<close> (app/services/sync\_history\_service.py)\<close>

text \<open>
  A history entry. \<open>timestamp\<close> is the \<open>datetime\<close> in microseconds since the epoch
  (UTC), \<open>duration\<close> the float of seconds read as a real number. The fields
  \<open>replica_paths\<close> and \<open>results\<close> are \<open>entry_replica_paths\<close> and
  \<open>entry_results\<close> here. \<open>to_dict\<close> and \<open>from_dict\<close> are inverse to each other
  and are not modelled: an entry stands for its dictionary as well.
\<close>

record sync_history_entry =
  timestamp :: int
  sync_type :: string
  status :: string
  duration :: real
  library_path :: string
  entry_replica_paths :: "string list"
  entry_results :: results
  error :: "string option"

text \<open>
  The history file: absent, present but not loadable (any exception while reading or
  decoding it), or holding the dictionary that \<open>_save_history\<close> writes.
\<close>

record history_data =
  last_updated :: int
  total_entries :: nat
  entries :: "sync_history_entry list"

datatype history_file = Missing | Unreadable | Stored history_data

definition max_entries :: nat where
  "max_entries = 100"

text \<open>\<open>_load_history\<close>\<close>

definition load_history :: "history_file \<Rightarrow> sync_history_entry list" where
  "load_history f = (case f of Missing \<Rightarrow> [] | Unreadable \<Rightarrow> [] | Stored d \<Rightarrow> entries d)"

text \<open>
  \<open>_save_history\<close>. The file is replaced by an atomic rename, so that a write that
  fails (\<open>write_fails\<close>: the exception is caught and logged) leaves the file as it was.
\<close>

definition save_history :: "int \<Rightarrow> bool \<Rightarrow> sync_history_entry list \<Rightarrow> history_file \<Rightarrow> history_file" where
  "save_history saved_at write_fails es f =
     (let recent_entries =
            (if length es > max_entries then drop (length es - max_entries) es else es);
          d = \<lparr>last_updated = saved_at, total_entries = length recent_entries,
               entries = recent_entries\<rparr>
      in if write_fails then f else Stored d)"

text \<open>\<open>add_sync_entry\<close>; \<open>now\<close> and \<open>saved_at\<close> are the two readings of the clock.\<close>

definition add_sync_entry ::
  "int \<Rightarrow> int \<Rightarrow> bool \<Rightarrow> string \<Rightarrow> string \<Rightarrow> real \<Rightarrow> string \<Rightarrow> string list \<Rightarrow> results \<Rightarrow>
   string option \<Rightarrow> history_file \<Rightarrow> history_file" where
  "add_sync_entry now saved_at write_fails styp stat dur lib reps res err f =
     (let entry = \<lparr>timestamp = now, sync_type = styp, status = stat, duration = dur,
                   library_path = lib, entry_replica_paths = reps, entry_results = res,
                   error = err\<rparr>;
          history = load_history f @ [entry]
      in save_history saved_at write_fails history f)"

text \<open>
  A sequence of calls of \<open>add_sync_entry\<close>, each call given by its arguments and by
  what the clock and the disk do during it.
\<close>

record add_call =
  call_now :: int
  call_saved_at :: int
  call_write_fails :: bool
  call_entry :: sync_history_entry

definition add_call_entry :: "add_call \<Rightarrow> sync_history_entry" where
  "add_call_entry c =
     \<lparr>timestamp = call_now c, sync_type = sync_type (call_entry c),
      status = status (call_entry c), duration = duration (call_entry c),
      library_path = library_path (call_entry c),
      entry_replica_paths = entry_replica_paths (call_entry c),
      entry_results = entry_results (call_entry c), error = error (call_entry c)\<rparr>"

definition add_sync_entry_call :: "add_call \<Rightarrow> history_file \<Rightarrow> history_file" where
  "add_sync_entry_call c f =
     add_sync_entry (call_now c) (call_saved_at c) (call_write_fails c)
       (sync_type (call_entry c)) (status (call_entry c)) (duration (call_entry c))
       (library_path (call_entry c)) (entry_replica_paths (call_entry c))
       (entry_results (call_entry c)) (error (call_entry c)) f"

fun add_sync_entries :: "add_call list \<Rightarrow> history_file \<Rightarrow> history_file" where
  "add_sync_entries [] f = f"
| "add_sync_entries (c # cs) f = add_sync_entries cs (add_sync_entry_call c f)"

text \<open>
  \<open>entries.sort(key=lambda x: x.timestamp, reverse=True)\<close>: Python's sort is stable
  also when reversed, which it achieves by reversing the list before and after a stable
  ascending sort.
\<close>

definition sort_recent_first :: "sync_history_entry list \<Rightarrow> sync_history_entry list" where
  "sort_recent_first es = rev (sort_key timestamp (rev es))"

text \<open>The slice \<open>entries[:limit]\<close>; a negative limit counts from the end.\<close>

definition slice_to :: "int \<Rightarrow> 'a list \<Rightarrow> 'a list" where
  "slice_to limit xs =
     (if 0 \<le> limit then take (nat limit) xs else take (length xs - nat (- limit)) xs)"

text \<open>\<open>get_history\<close>; the test \<open>if limit:\<close> fails for \<open>None\<close> and for 0.\<close>

definition get_history :: "int option \<Rightarrow> history_file \<Rightarrow> sync_history_entry list" where
  "get_history limit f =
     (let es = sort_recent_first (load_history f)
      in case limit of
           None \<Rightarrow> es
         | Some n \<Rightarrow> if n \<noteq> 0 then slice_to n es else es)"

definition get_latest_sync :: "history_file \<Rightarrow> sync_history_entry option" where
  "get_latest_sync f = (case get_history (Some 1) f of [] \<Rightarrow> None | e # _ \<Rightarrow> Some e)"






section \<open>The router (app/routers/sync.py)\<close>

text \<open>
  The module-level dictionary \<open>sync_status\<close>; its keys \<open>last_sync\<close> and \<open>errors\<close>
  are \<open>last_sync_at\<close> and \<open>run_errors\<close> here.
\<close>

record sync_status =
  last_sync_at :: "int option"
  in_progress :: bool
  result :: "results option"
  run_errors :: "string option"

record sync_response =
  resp_status :: string
  resp_last_sync :: "int option"
  details :: "(results option \<times> string option) option"

text \<open>
  \<open>trigger_sync\<close>. \<open>background_tasks\<close> is the queue of the calls of
  \<open>perform_sync\<close> that \<open>add_task\<close> has scheduled, each by its \<open>dry_run\<close> argument.
  The handler reads \<open>sync_status\<close> and does not write it.
\<close>

definition trigger_sync :: "bool list \<Rightarrow> bool \<Rightarrow> sync_status \<Rightarrow> sync_response \<times> bool list" where
  "trigger_sync background_tasks dry_run st =
     (if in_progress st
      then (\<lparr>resp_status = ''already_running'', resp_last_sync = last_sync_at st,
             details = None\<rparr>, background_tasks)
      else (\<lparr>resp_status = ''started'', resp_last_sync = last_sync_at st, details = None\<rparr>,
            background_tasks @ [dry_run]))"

definition get_sync_status :: "sync_status \<Rightarrow> sync_response" where
  "get_sync_status st =
     \<lparr>resp_status = (if in_progress st then ''in_progress'' else ''idle''),
      resp_last_sync = last_sync_at st,
      details = Some (result st, run_errors st)\<rparr>"


text \<open>
  \<open>perform_sync\<close> in its two halves: what it does before it calls \<open>sync_folders\<close>
  (lines 37 to 39) and what it does with the outcome (lines 43 to 79, \<open>Inl\<close> an
  exception), the flag being cleared by \<open>finally\<close>.
\<close>

definition perform_sync_enter :: "sync_status \<Rightarrow> sync_status" where
  "perform_sync_enter st = st\<lparr>in_progress := True, result := None, run_errors := None\<rparr>"

definition perform_sync_leave ::
  "sync_service \<Rightarrow> bool \<Rightarrow> string + results \<Rightarrow> int \<Rightarrow> int \<Rightarrow> int \<Rightarrow> bool \<Rightarrow> real \<Rightarrow>
   sync_status \<times> history_file \<Rightarrow> sync_status \<times> history_file" where
  "perform_sync_leave self dry_run sync_outcome finished_at now saved_at write_fails dur state =
     (case state of (st, hist) \<Rightarrow>
        (case sync_outcome of
           Inr res \<Rightarrow>
             (st\<lparr>result := Some res, last_sync_at := Some finished_at, in_progress := False\<rparr>,
              add_sync_entry now saved_at write_fails
                (if dry_run then ''dry_run'' else ''sync'') ''completed'' dur
                (source_path self) (replica_paths self) res None hist)
         | Inl error_msg \<Rightarrow>
             (st\<lparr>run_errors := Some error_msg, in_progress := False\<rparr>,
              add_sync_entry now saved_at write_fails
                (if dry_run then ''dry_run'' else ''sync'') ''failed'' dur
                (source_path self) (replica_paths self) [] (Some error_msg) hist)))"

text \<open>
  The process: the status dictionary, the history file, the queue of scheduled
  background tasks, and the calls of \<open>perform_sync\<close> that have entered and not yet
  left. The server handles a request, or starts the oldest scheduled task (in a worker
  thread, after the response of the request that scheduled it has been sent), or a
  running task reaches its end with the outcome of \<open>sync_folders\<close>.
\<close>

record process =
  status_dict :: sync_status
  history :: history_file
  background_tasks :: "bool list"
  running :: "bool list"

record task_end =
  outcome :: "string + results"
  finished :: int
  entry_time :: int
  saved_time :: int
  history_write_fails :: bool
  elapsed :: real

datatype event = Trigger bool | Task_starts | Task_ends task_end

fun step :: "sync_service \<Rightarrow> event \<Rightarrow> process \<Rightarrow> process" where
  "step self (Trigger dry_run) p =
     p\<lparr>background_tasks := snd (trigger_sync (background_tasks p) dry_run (status_dict p))\<rparr>"
| "step self Task_starts p =
     (case background_tasks p of
        [] \<Rightarrow> p
      | dry_run # rest \<Rightarrow>
          p\<lparr>status_dict := perform_sync_enter (status_dict p), background_tasks := rest,
            running := running p @ [dry_run]\<rparr>)"
| "step self (Task_ends t) p =
     (case running p of
        [] \<Rightarrow> p
      | dry_run # rest \<Rightarrow>
          (case perform_sync_leave self dry_run (outcome t) (finished t) (entry_time t)
                  (saved_time t) (history_write_fails t) (elapsed t)
                  (status_dict p, history p) of
             (st, hist) \<Rightarrow> p\<lparr>status_dict := st, history := hist, running := rest\<rparr>))"

fun run_events :: "sync_service \<Rightarrow> event list \<Rightarrow> process \<Rightarrow> process" where
  "run_events self [] p = p"
| "run_events self (ev # evs) p = run_events self evs (step self ev p)"

definition idle_process :: process where
  "idle_process =
     \<lparr>status_dict = \<lparr>last_sync_at = None, in_progress = False, result = None, run_errors = None\<rparr>,
      history = Missing, background_tasks = [], running = []\<rparr>"

section \<open>Notions used to state the properties\<close>

text \<open>The metadata that the walk stores for a file, and the files that the walk stores.\<close>

definition meta_of :: "string \<Rightarrow> string \<Rightarrow> regular_file \<Rightarrow> file_meta" where
  "meta_of tree_root rel f =
     \<lparr>path = (tree_root, rel), fsize = length (content f), mtime = st_mtime f,
      relative_path = rel\<rparr>"

definition visible :: "os_env \<Rightarrow> string \<Rightarrow> string \<Rightarrow> bool" where
  "visible E tree_root rel =
     (\<not> startswith_dot (basename rel) \<and> stat_error E (tree_root, rel) = None)"


text \<open>The test of lines 181 and 182.\<close>

definition metadata_differs :: "file_meta \<Rightarrow> file_meta \<Rightarrow> bool" where
  "metadata_differs sm dm = (fsize sm \<noteq> fsize dm \<or> \<bar>mtime sm - mtime dm\<bar> > 1)"



text \<open>The last \<open>n\<close> elements of a list, in their order.\<close>

definition most_recent :: "nat \<Rightarrow> 'a list \<Rightarrow> 'a list" where
  "most_recent n xs = drop (length xs - n) xs"

text \<open>
  A catalog read from the tree of a root: the keys are distinct, and every entry is the
  metadata of a visible file, stored under the relative path of the file.
\<close>

definition catalog_of :: "os_env \<Rightarrow> string \<Rightarrow> catalog \<Rightarrow> bool" where
  "catalog_of E r c =
     (distinct (map fst c) \<and>
      list_all (\<lambda>(k, m). relative_path m = k \<and> path m = (r, k) \<and> visible E r k) c)"

text \<open>
  The file system with which the loops of \<open>sync_folder\<close> start: the destination
  directory has been created when it was missing and the run is not a dry run.
\<close>

definition created :: "bool \<Rightarrow> string \<Rightarrow> filesystem \<Rightarrow> filesystem" where
  "created dry_run destination fs =
     (if fs destination = None \<and> \<not> dry_run then fs(destination \<mapsto> []) else fs)"

text \<open>Every counter is the length of its list.\<close>

definition consistent :: "stats \<Rightarrow> bool" where
  "consistent st =
     (added st = int (length (added_files st)) \<and> updated st = int (length (updated_files st))
      \<and> deleted st = int (length (deleted_files st))
      \<and> ignored st = int (length (ignored_files st))
      \<and> errors st = int (length (error_files st)))"

text \<open>The number of source entries that the first loop has counted.\<close>

definition counted :: "stats \<Rightarrow> int" where
  "counted st = added st + updated st + unchanged st + ignored st + errors st"



section \<open>Example inputs\<close>

definition entry_a :: sync_history_entry where
  "entry_a =
     \<lparr>timestamp = 10, sync_type = ''sync'', status = ''completed'', duration = 1 / 8,
      library_path = ''/lib'', entry_replica_paths = [''/r1''], entry_results = [],
      error = None\<rparr>"

definition entry_b :: sync_history_entry where
  "entry_b =
     \<lparr>timestamp = 20, sync_type = ''sync'', status = ''failed'', duration = 7,
      library_path = ''/lib'', entry_replica_paths = [''/r1''], entry_results = [],
      error = Some ''boom''\<rparr>"

definition store_a :: history_file where
  "store_a = Stored \<lparr>last_updated = 10, total_entries = 1, entries = [entry_a]\<rparr>"


text \<open>A history file at the cap: 100 entries.\<close>

definition store_full :: history_file where
  "store_full =
     Stored \<lparr>last_updated = 10, total_entries = 100, entries = replicate 100 entry_a\<rparr>"

definition call_b :: "bool \<Rightarrow> add_call" where
  "call_b w = \<lparr>call_now = 20, call_saved_at = 21, call_write_fails = w, call_entry = entry_b\<rparr>"

text \<open>
  An operating system on which no call fails; the digest is injective (the content
  itself stands for its MD5 digest).
\<close>

definition env_ok :: os_env where
  "env_ok =
     \<lparr>stat_error = (\<lambda>_. None), open_error = (\<lambda>_. None), makedirs_error = (\<lambda>_. None),
      copy_error = (\<lambda>_ _. None), remove_error = (\<lambda>_. None), md5 = (\<lambda>s. s)\<rparr>"

definition library_service :: sync_service where
  "library_service = \<lparr>source_path = ''/lib'', replica_paths = [''/r1'', ''/r2'']\<rparr>"

text \<open>
  A library of three files and a replica that has one of them with a later
  modification time, an orphan, and a protected file.
\<close>

definition fs_example :: filesystem where
  "fs_example =
     (\<lambda>_. None)
       (''/lib'' \<mapsto>
          [(''book1/book1.epub'', \<lparr>content = ''abc'', st_mtime = 5\<rparr>),
           (''notes.json'', \<lparr>content = ''x'', st_mtime = 6\<rparr>),
           (''metadata.db'', \<lparr>content = ''db'', st_mtime = 7\<rparr>)],
        ''/r1'' \<mapsto>
          [(''book1/book1.epub'', \<lparr>content = ''abc'', st_mtime = 9\<rparr>),
           (''book2/book2.epub'', \<lparr>content = ''zzz'', st_mtime = 5\<rparr>),
           (''cfg/metadata_db_prefs_backup.json'', \<lparr>content = ''pp'', st_mtime = 5\<rparr>)])"


text \<open>
  An operating system that refuses to create the first replica, and a file system that
  has the library only.
\<close>

definition env_denied :: os_env where
  "env_denied =
     env_ok\<lparr>makedirs_error :=
       (\<lambda>loc. if loc = (''/r1'', []) then Some ''Permission denied'' else None)\<rparr>"

definition fs_library_only :: filesystem where
  "fs_library_only = (\<lambda>_. None)(''/lib'' \<mapsto> [(''a.txt'', \<lparr>content = ''hi'', st_mtime = 1\<rparr>)])"

text \<open>A library and a replica that hold the same \<open>notes.json\<close>, written at different times.\<close>

definition fs_json :: filesystem where
  "fs_json =
     (\<lambda>_. None)
       (''/lib'' \<mapsto> [(''notes.json'', \<lparr>content = ''x'', st_mtime = 6\<rparr>)],
        ''/r1'' \<mapsto> [(''notes.json'', \<lparr>content = ''x'', st_mtime = 1\<rparr>)])"


section \<open>The history ledger\<close>







lemma most_recent_length: "length (most_recent n xs) \<le> n"
  by (simp add: most_recent_def)

lemma most_recent_append:
  "ys \<noteq> [] \<Longrightarrow> most_recent n (most_recent n xs @ ys) = most_recent n (xs @ ys)"
proof (cases "length xs \<le> n")
  case True
  then show ?thesis by (simp add: most_recent_def)
next
  case False
  then have "length ys + length xs - n = length ys + (length xs - n)" by simp
  with False show ?thesis by (simp add: most_recent_def add.commute)
qed

lemma load_add_sync_entry_call:
  "load_history (add_sync_entry_call c f) =
     (if call_write_fails c then load_history f
      else most_recent max_entries (load_history f @ [add_call_entry c]))"
  by (simp add: add_sync_entry_call_def add_sync_entry_def save_history_def Let_def
        load_history_def most_recent_def add_call_entry_def)

lemma load_add_sync_entries:
  "list_all (\<lambda>c. \<not> call_write_fails c) cs \<Longrightarrow> cs \<noteq> [] \<Longrightarrow>
   load_history (add_sync_entries cs f) =
     most_recent max_entries (load_history f @ map add_call_entry cs)"
proof (induction cs arbitrary: f)
  case Nil
  then show ?case by simp
next
  case (Cons c cs)
  show ?case
  proof (cases "cs = []")
    case True
    with Cons.prems show ?thesis by (simp add: load_add_sync_entry_call)
  next
    case False
    with Cons have "load_history (add_sync_entries cs (add_sync_entry_call c f)) =
        most_recent max_entries (load_history (add_sync_entry_call c f) @ map add_call_entry cs)"
      by simp
    also have "\<dots> = most_recent max_entries
        (most_recent max_entries (load_history f @ [add_call_entry c]) @ map add_call_entry cs)"
      using Cons.prems by (simp add: load_add_sync_entry_call)
    also have "\<dots> = most_recent max_entries
        ((load_history f @ [add_call_entry c]) @ map add_call_entry cs)"
      using False by (intro most_recent_append) simp
    finally show ?thesis by simp
  qed
qed

text \<open>
  Claim C6, as amended. A call of \<open>add_sync_entry\<close> whose write succeeds stores the last
  100 entries of the loaded history followed by the new entry, in that order, hence at
  most 100 entries; a call whose write fails leaves the file as it was. After a
  non-empty sequence of calls whose writes all succeed the file holds the last 100
  entries of the loaded history followed by the appended entries.
\<close>

theorem C6_add_sync_entry_keeps_most_recent:
  "(\<not> write_fails \<longrightarrow>
      load_history (add_sync_entry now saved_at write_fails styp stat dur lib reps res err f)
        = most_recent max_entries (load_history f @
            [\<lparr>timestamp = now, sync_type = styp, status = stat, duration = dur,
              library_path = lib, entry_replica_paths = reps, entry_results = res,
              error = err\<rparr>])
      \<and> length (load_history
            (add_sync_entry now saved_at write_fails styp stat dur lib reps res err f)) \<le> 100)
   \<and> (write_fails \<longrightarrow>
        add_sync_entry now saved_at write_fails styp stat dur lib reps res err f = f)
   \<and> (list_all (\<lambda>c. \<not> call_write_fails c) cs \<and> cs \<noteq> [] \<longrightarrow>
        load_history (add_sync_entries cs f)
          = most_recent max_entries (load_history f @ map add_call_entry cs)
        \<and> length (load_history (add_sync_entries cs f)) \<le> 100)"
proof -
  have a: "\<not> write_fails \<Longrightarrow>
      load_history (add_sync_entry now saved_at write_fails styp stat dur lib reps res err f)
        = most_recent max_entries (load_history f @
            [\<lparr>timestamp = now, sync_type = styp, status = stat, duration = dur,
              library_path = lib, entry_replica_paths = reps, entry_results = res,
              error = err\<rparr>])"
    by (simp add: add_sync_entry_def save_history_def Let_def load_history_def most_recent_def)
  have b: "write_fails \<Longrightarrow>
      add_sync_entry now saved_at write_fails styp stat dur lib reps res err f = f"
    by (simp add: add_sync_entry_def save_history_def Let_def)
  have c: "list_all (\<lambda>c. \<not> call_write_fails c) cs \<Longrightarrow> cs \<noteq> [] \<Longrightarrow>
        load_history (add_sync_entries cs f)
          = most_recent max_entries (load_history f @ map add_call_entry cs)"
    by (rule load_add_sync_entries)
  have m: "\<And>xs :: sync_history_entry list. length (most_recent max_entries xs) \<le> 100"
    using most_recent_length [of max_entries] by (simp add: max_entries_def)
  from a b c m show ?thesis by auto
qed

text \<open>
  The amended claim C6 at a history of one entry: a successful call appends, a failed
  one changes nothing, two successful calls append two entries.
\<close>

theorem C6_add_sync_entry_keeps_most_recent_witness:
  "load_history
     (add_sync_entry 20 21 False ''sync'' ''failed'' 7 ''/lib'' [''/r1''] [] (Some ''boom'') store_a)
     = [entry_a, entry_b]
   \<and> add_sync_entry 20 21 True ''sync'' ''failed'' 7 ''/lib'' [''/r1''] [] (Some ''boom'') store_a
       = store_a
   \<and> load_history (add_sync_entries [call_b False, call_b False] store_a)
       = [entry_a, entry_b, entry_b]"
proof -
  have e: "\<lparr>timestamp = 20, sync_type = ''sync'', status = ''failed'', duration = 7,
              library_path = ''/lib'', entry_replica_paths = [''/r1''], entry_results = [],
              error = Some ''boom''\<rparr> = entry_b"
    by (simp add: entry_b_def)
  have l: "load_history store_a = [entry_a]"
    by (simp add: store_a_def load_history_def)
  have c: "add_call_entry (call_b False) = entry_b"
    by (simp add: add_call_entry_def call_b_def entry_b_def)
  have w: "\<not> call_write_fails (call_b False)"
    by (simp add: call_b_def)
  from C6_add_sync_entry_keeps_most_recent
         [of False 20 21 "''sync''" "''failed''" 7 "''/lib''" "[''/r1'']" "[]"
             "Some ''boom''" store_a "[call_b False, call_b False]"]
       C6_add_sync_entry_keeps_most_recent
         [of True 20 21 "''sync''" "''failed''" 7 "''/lib''" "[''/r1'']" "[]"
             "Some ''boom''" store_a "[]"]
       e l c w
  show ?thesis by (simp add: most_recent_def max_entries_def)
qed

text \<open>
  Claim C6 as stated fails. The file holds 100 entries and the write of the next call
  fails: the appended sequence of 101 entries exceeds the cap, and the entry that is
  missing from the file afterwards is the newest one, not the oldest.
\<close>

theorem C6_failed_write_drops_newest:
  "length (load_history store_full) = 100
   \<and> load_history
       (add_sync_entry 20 21 True ''sync'' ''failed'' 7 ''/lib'' [''/r1''] [] (Some ''boom'')
          store_full)
     = replicate 100 entry_a
   \<and> most_recent 100 (load_history store_full @ [entry_b]) = replicate 99 entry_a @ [entry_b]
   \<and> replicate 100 entry_a \<noteq> replicate 99 entry_a @ [entry_b]"
proof -
  have l: "load_history store_full = replicate 100 entry_a"
    by (simp add: store_full_def load_history_def)
  have a: "add_sync_entry 20 21 True ''sync'' ''failed'' 7 ''/lib'' [''/r1''] [] (Some ''boom'')
      store_full = store_full"
    by (simp add: add_sync_entry_def save_history_def Let_def)
  have m: "most_recent 100 (replicate 100 entry_a @ [entry_b]) = replicate 99 entry_a @ [entry_b]"
    by (simp add: most_recent_def)
  have "last (replicate 100 entry_a) = entry_a" by simp
  moreover have "last (replicate 99 entry_a @ [entry_b]) = entry_b" by simp
  moreover have "entry_a \<noteq> entry_b" by (simp add: entry_a_def entry_b_def)
  ultimately have n: "replicate 100 entry_a \<noteq> replicate 99 entry_a @ [entry_b]" by metis
  from l a m n show ?thesis by simp
qed





section \<open>The run coordinator\<close>

lemma trigger_sync_already_running:
  "in_progress st \<Longrightarrow>
   trigger_sync tasks dry_run st =
     (\<lparr>resp_status = ''already_running'', resp_last_sync = last_sync_at st, details = None\<rparr>,
      tasks)"
  by (simp add: trigger_sync_def)

lemma step_trigger_already_running:
  "in_progress (status_dict p) \<Longrightarrow> step self (Trigger dry_run) p = p"
  by (simp add: trigger_sync_def)

text \<open>
  Claim C9 fails on the code. \<open>trigger_sync\<close> does not set the flag; only
  \<open>perform_sync\<close> does, once the background task runs. Two requests that arrive
  before the first task has started are both answered \<open>started\<close>, both schedule a run,
  and both runs are then active together.
\<close>

theorem C9_two_triggers_two_active_runs:
  "resp_status (fst (trigger_sync [] False (status_dict idle_process))) = ''started''
   \<and> resp_status (fst (trigger_sync (background_tasks (step self (Trigger False) idle_process))
        True (status_dict (step self (Trigger False) idle_process)))) = ''started''
   \<and> background_tasks (run_events self [Trigger False, Trigger True] idle_process)
        = [False, True]
   \<and> running (run_events self [Trigger False, Trigger True, Task_starts, Task_starts]
        idle_process) = [False, True]"
  by (simp add: idle_process_def trigger_sync_def perform_sync_enter_def)

section \<open>The reconciliation\<close>

subsection \<open>File names and catalogs\<close>

lemma basename_no_sep: "CHR ''/'' \<notin> set (basename p)"
proof -
  have "\<forall>c \<in> set (takeWhile (\<lambda>c. c \<noteq> CHR ''/'') (rev p)). c \<noteq> CHR ''/''"
    using set_takeWhileD by fastforce
  then show ?thesis by (auto simp: basename_def)
qed

lemma basename_id:
  assumes "CHR ''/'' \<notin> set p"
  shows "basename p = p"
proof -
  from assms have "takeWhile (\<lambda>c. c \<noteq> CHR ''/'') (rev p) = rev p"
    by (auto simp: takeWhile_eq_all_conv)
  then show ?thesis unfolding basename_def by (simp only: rev_rev_ident)
qed

lemma basename_basename: "basename (basename p) = basename p"
  by (rule basename_id) (rule basename_no_sep)

lemma is_protected_basename: "is_protected (basename p) = is_protected p"
  by (simp add: is_protected_def basename_basename)

lemma protected_name_cases:
  "is_protected p \<Longrightarrow> \<not> is_protected k \<Longrightarrow>
   k \<noteq> p \<and> k \<noteq> basename p \<and> basename k \<noteq> p \<and> basename k \<noteq> basename p"
  using is_protected_basename by metis

lemma scan_files_distinct:
  "distinct (map fst acc) \<Longrightarrow> distinct (map fst (scan_files E r t acc))"
  by (induction E r t acc rule: scan_files.induct) (auto simp: distinct_update split: option.splits)

lemma update_subset: "set (AList.update k v al) \<subseteq> insert (k, v) (set al)"
  by (induction al) auto

lemma scan_files_entries:
  "(k, m) \<in> set (scan_files E r t acc) \<Longrightarrow>
   (k, m) \<in> set acc \<or> (\<exists>f. (k, f) \<in> set t \<and> visible E r k \<and> m = meta_of r k f)"
proof (induction t arbitrary: acc)
  case Nil
  then show ?case by simp
next
  case (Cons x rest)
  obtain rel f where x: "x = (rel, f)" by (cases x)
  show ?case
  proof (cases "visible E r rel")
    case False
    then have "scan_files E r (x # rest) acc = scan_files E r rest acc"
      by (auto simp: x visible_def split: option.splits)
    with Cons show ?thesis by auto
  next
    case True
    then have "scan_files E r (x # rest) acc
        = scan_files E r rest (AList.update rel (meta_of r rel f) acc)"
      by (auto simp: x visible_def meta_of_def split: option.splits)
    with Cons have "(k, m) \<in> set (AList.update rel (meta_of r rel f) acc)
        \<or> (\<exists>f. (k, f) \<in> set rest \<and> visible E r k \<and> m = meta_of r k f)"
      by auto
    with update_subset [of rel "meta_of r rel f" acc] True x show ?thesis by auto
  qed
qed


lemma catalog_of_scan: "catalog_of E r (scan_files E r t [])"
proof -
  have "distinct (map fst (scan_files E r t []))"
    by (rule scan_files_distinct) simp
  moreover have "relative_path m = k \<and> path m = (r, k) \<and> visible E r k"
    if "(k, m) \<in> set (scan_files E r t [])" for k m
  proof -
    from scan_files_entries [OF that] obtain f where "visible E r k" "m = meta_of r k f"
      by auto
    then show ?thesis by (simp add: meta_of_def)
  qed
  ultimately show ?thesis
    by (auto simp: catalog_of_def list_all_iff)
qed

lemma catalog_of_calibre: "catalog_of E (source_path self) (get_calibre_files E self fs)"
  by (auto simp: get_calibre_files_def catalog_of_scan split: option.splits)
     (simp add: catalog_of_def)

lemma catalog_of_replica: "catalog_of E d (get_replica_files E d fs)"
  by (auto simp: get_replica_files_def catalog_of_scan split: option.splits)
     (simp add: catalog_of_def)

lemma catalog_of_entry:
  "catalog_of E r c \<Longrightarrow> (k, m) \<in> set c \<Longrightarrow>
   relative_path m = k \<and> path m = (r, k) \<and> visible E r k \<and> map_of c k = Some m"
  by (auto simp: catalog_of_def list_all_iff)

subsection \<open>The file operations\<close>

lemma copy2_read:
  "copy2 E fs src dst = Inr fs' \<Longrightarrow>
   read_file fs' loc = (if loc = dst then read_file fs src else read_file fs loc)"
  by (cases dst; cases loc)
     (auto simp: copy2_def read_file_def update_conv' split: option.splits if_splits)




lemma os_remove_read:
  "os_remove E fs l = Inr fs' \<Longrightarrow>
   read_file fs' loc = (if loc = l then None else read_file fs loc)"
  by (cases l; cases loc)
     (auto simp: os_remove_def read_file_def delete_conv' split: option.splits if_splits)




lemma calculate_file_hash_cong:
  "read_file fs' loc = read_file fs loc \<Longrightarrow> calculate_file_hash E fs' loc = calculate_file_hash E fs loc"
  by (simp add: calculate_file_hash_def split: option.splits)

subsection \<open>One entry of the source catalog\<close>

lemma add_missing_file_cases:
  assumes "add_missing_file E dry k m dp st fs = (st', fs')"
  obtains
    (Added) "st' = count_added k st" "if dry then fs' = fs else copy2 E fs (path m) dp = Inr fs'"
  | (Add_error) "\<not> dry" "st' = count_error k st" "fs' = fs"
  using assms unfolding add_missing_file_def
  by (auto split: if_splits option.splits sum.splits)

lemma update_existing_file_cases:
  assumes "update_existing_file E dry k m dm dp st fs = Inr (st', fs')"
  obtains
    (Updated) sh dh where "metadata_differs m dm"
      "calculate_file_hash E fs (path m) = Inr sh" "calculate_file_hash E fs (path dm) = Inr dh"
      "sh \<noteq> dh" "st' = count_updated k st"
      "if dry then fs' = fs else copy2 E fs (path m) dp = Inr fs'"
  | (Update_error) "\<not> dry" "st' = count_error k st" "fs' = fs"
  | (Unchanged) "st' = count_unchanged st" "fs' = fs"
      "\<not> metadata_differs m dm \<or>
         (\<exists>h. calculate_file_hash E fs (path m) = Inr h \<and> calculate_file_hash E fs (path dm) = Inr h)"
  using assms unfolding update_existing_file_def metadata_differs_def
  by (auto split: if_splits sum.splits)

lemma process_source_file_cases:
  assumes "process_source_file E d dry df (k, m) (st, pr, fs) = Inr (st', pr', fs')"
  obtains
    (Ignored) "is_ignored k" "st' = count_ignored k st" "pr' = pr" "fs' = fs"
  | (Missing) "\<not> is_ignored k" "map_of df k = None" "pr' = insert k pr"
      "add_missing_file E dry k m (d, relative_path m) st fs = (st', fs')"
  | (Existing) dm where "\<not> is_ignored k" "map_of df k = Some dm" "pr' = insert k pr"
      "update_existing_file E dry k m dm (d, relative_path m) st fs = Inr (st', fs')"
  using assms unfolding process_source_file_def get_destination_path_def Let_def
  by (auto split: if_splits option.splits sum.splits prod.splits)


subsection \<open>The loops\<close>

lemma process_dest_file_cases:
  assumes "process_dest_file E dry pr (k, m) (st, fs) = (st', fs')"
  obtains
    (Kept) "k \<in> pr \<or> is_protected k" "st' = st" "fs' = fs"
  | (Deleted) "k \<notin> pr" "\<not> is_protected k"
      "st' = count_deleted (if dry then basename k else k) st"
      "if dry then fs' = fs else os_remove E fs (path m) = Inr fs'"
  | (Delete_error) "k \<notin> pr" "\<not> is_protected k" "\<not> dry"
      "st' = count_error (basename k) st" "fs' = fs"
  using assms unfolding process_dest_file_def Let_def
  by (auto split: if_splits sum.splits)

lemma source_loop_rule_aux:
  assumes "source_loop E d dry df ys s = (out, fs')"
      and "items = xs @ ys"
      and "I xs s"
      and step: "\<And>pre x post s s1. items = pre @ x # post \<Longrightarrow> I pre s \<Longrightarrow>
                 process_source_file E d dry df x s = Inr s1 \<Longrightarrow> I (pre @ [x]) s1"
  shows "case out of
           Inr (st', pr') \<Rightarrow> I items (st', pr', fs')
         | Inl e \<Rightarrow> \<exists>pre x post st pr. items = pre @ x # post \<and> I pre (st, pr, fs')
                      \<and> process_source_file E d dry df x (st, pr, fs') = Inl e"
  using assms(1-3)
proof (induction ys arbitrary: xs s)
  case Nil
  then show ?case by (cases s) auto
next
  case (Cons y ys)
  show ?case
  proof (cases "process_source_file E d dry df y s")
    case (Inl e)
    obtain st pr fs where s: "s = (st, pr, fs)" by (cases s)
    with Inl Cons.prems(1) have o: "out = Inl e" "fs' = fs" by auto
    from Inl Cons.prems(2,3) s o
    have "items = xs @ y # ys \<and> I xs (st, pr, fs')
        \<and> process_source_file E d dry df y (st, pr, fs') = Inl e"
      by simp
    then have "\<exists>pre x post st pr. items = pre @ x # post \<and> I pre (st, pr, fs')
        \<and> process_source_file E d dry df x (st, pr, fs') = Inl e"
      by blast
    with o show ?thesis by simp
  next
    case (Inr s1)
    with Cons.prems(1) have run: "source_loop E d dry df ys s1 = (out, fs')" by simp
    have I1: "I (xs @ [y]) s1"
      using step [of xs y ys s s1] Cons.prems(2,3) Inr by simp
    from Cons.prems(2) have "items = (xs @ [y]) @ ys" by simp
    from Cons.IH [OF run this I1] show ?thesis .
  qed
qed

lemma source_loop_rule:
  assumes "source_loop E d dry df items s = (out, fs')"
      and "I [] s"
      and "\<And>pre x post s s1. items = pre @ x # post \<Longrightarrow> I pre s \<Longrightarrow>
                 process_source_file E d dry df x s = Inr s1 \<Longrightarrow> I (pre @ [x]) s1"
  shows "case out of
           Inr (st', pr') \<Rightarrow> I items (st', pr', fs')
         | Inl e \<Rightarrow> \<exists>pre x post st pr. items = pre @ x # post \<and> I pre (st, pr, fs')
                      \<and> process_source_file E d dry df x (st, pr, fs') = Inl e"
  by (rule source_loop_rule_aux [of E d dry df items s out fs' items "[]" I])
     (use assms in simp_all)

lemma dest_loop_rule_aux:
  assumes "items = xs @ ys"
      and "I xs s"
      and step: "\<And>pre x post s. items = pre @ x # post \<Longrightarrow> I pre s \<Longrightarrow>
                 I (pre @ [x]) (process_dest_file E dry pr x s)"
  shows "I items (dest_loop E dry pr ys s)"
  using assms(1,2)
proof (induction ys arbitrary: xs s)
  case Nil
  then show ?case by simp
next
  case (Cons y ys)
  have I1: "I (xs @ [y]) (process_dest_file E dry pr y s)"
    using step [of xs y ys s] Cons.prems by simp
  from Cons.prems(1) have "items = (xs @ [y]) @ ys" by simp
  from Cons.IH [OF this I1] show ?case by simp
qed

lemma dest_loop_rule:
  assumes "I [] s"
      and "\<And>pre x post s. items = pre @ x # post \<Longrightarrow> I pre s \<Longrightarrow>
                 I (pre @ [x]) (process_dest_file E dry pr x s)"
  shows "I items (dest_loop E dry pr items s)"
  by (rule dest_loop_rule_aux [of items "[]" items I s E dry pr]) (use assms in simp_all)

subsection \<open>sync_folder\<close>

lemma created_read: "read_file (created dry d fs) loc = read_file fs loc"
  by (auto simp: created_def read_file_def)

lemma created_calibre: "get_calibre_files E self (created dry d fs) = get_calibre_files E self fs"
  by (auto simp: created_def get_calibre_files_def)

lemma created_replica: "get_replica_files E r (created dry d fs) = get_replica_files E r fs"
  by (auto simp: created_def get_replica_files_def)

lemma created_dry: "created True d fs = fs"
  by (simp add: created_def)


lemma sync_folder_cases:
  assumes "sync_folder E self d dry fs = (out, fs')"
  obtains
    (Mkdir_failed) e where "fs d = None" "\<not> dry" "makedirs_error E (d, []) = Some e"
      "out = Inl e" "fs' = fs"
  | (Raised) e where
      "source_loop E d dry (get_replica_files E d fs) (get_calibre_files E self fs)
         (empty_stats, {}, created dry d fs) = (Inl e, fs')"
      "out = Inl e"
  | (Returned) st pr fs2 st' where
      "source_loop E d dry (get_replica_files E d fs) (get_calibre_files E self fs)
         (empty_stats, {}, created dry d fs) = (Inr (st, pr), fs2)"
      "dest_loop E dry pr (get_replica_files E d fs) (st, fs2) = (st', fs')"
      "out = Inr st'"
proof (cases "fs d = None \<and> \<not> dry")
  case True
  show ?thesis
  proof (cases "makedirs_error E (d, [])")
    case (Some e)
    with True assms have "out = Inl e" "fs' = fs" by (auto simp: sync_folder_def)
    with True Some Mkdir_failed show ?thesis by blast
  next
    case None
    let ?fs1 = "fs(d \<mapsto> [])"
    have c: "created dry d fs = ?fs1" using True by (simp add: created_def)
    have cal: "get_calibre_files E self ?fs1 = get_calibre_files E self fs"
      using created_calibre [of E self dry d fs] c by simp
    have rep: "get_replica_files E d ?fs1 = get_replica_files E d fs"
      using created_replica [of E d dry d fs] c by simp
    obtain lo fs2 where loop: "source_loop E d dry (get_replica_files E d fs)
        (get_calibre_files E self fs) (empty_stats, {}, created dry d fs) = (lo, fs2)"
      by (cases "source_loop E d dry (get_replica_files E d fs)
        (get_calibre_files E self fs) (empty_stats, {}, created dry d fs)")
    show ?thesis
    proof (cases lo)
      case (Inl e)
      with assms True None loop c cal rep have "out = Inl e" "fs' = fs2"
        by (auto simp: sync_folder_def Let_def)
      with loop Inl Raised show ?thesis by blast
    next
      case (Inr sp)
      obtain st pr where sp: "sp = (st, pr)" by (cases sp)
      obtain st' fs3 where dl: "dest_loop E dry pr (get_replica_files E d fs) (st, fs2) = (st', fs3)"
        by (cases "dest_loop E dry pr (get_replica_files E d fs) (st, fs2)")
      with assms True None loop c cal rep Inr sp have "out = Inr st'" "fs' = fs3"
        by (auto simp: sync_folder_def Let_def)
      with loop Inr sp dl Returned show ?thesis by blast
    qed
  qed
next
  case False
  have c: "created dry d fs = fs" using False by (auto simp: created_def)
  obtain lo fs2 where loop: "source_loop E d dry (get_replica_files E d fs)
      (get_calibre_files E self fs) (empty_stats, {}, created dry d fs) = (lo, fs2)"
    by (cases "source_loop E d dry (get_replica_files E d fs)
      (get_calibre_files E self fs) (empty_stats, {}, created dry d fs)")
  show ?thesis
  proof (cases lo)
    case (Inl e)
    with assms False loop c have "out = Inl e" "fs' = fs2"
      by (auto simp: sync_folder_def Let_def)
    with loop Inl Raised show ?thesis by blast
  next
    case (Inr sp)
    obtain st pr where sp: "sp = (st, pr)" by (cases sp)
    obtain st' fs3 where dl: "dest_loop E dry pr (get_replica_files E d fs) (st, fs2) = (st', fs3)"
      by (cases "dest_loop E dry pr (get_replica_files E d fs) (st, fs2)")
    with assms False loop c Inr sp have "out = Inr st'" "fs' = fs3"
      by (auto simp: sync_folder_def Let_def)
    with loop Inr sp dl Returned show ?thesis by blast
  qed
qed

subsection \<open>One entry of a loop\<close>

lemmas count_defs = count_added_def count_updated_def count_deleted_def count_error_def
  count_ignored_def count_unchanged_def

lemma process_source_file_fs:
  assumes "process_source_file E d dry df (k, m) (st, pr, fs) = Inr (st', pr', fs')"
  shows "fs' = fs \<or> (\<not> dry \<and> \<not> is_ignored k \<and> copy2 E fs (path m) (d, relative_path m) = Inr fs')"
  using assms
proof (cases rule: process_source_file_cases)
  case Ignored
  then show ?thesis by simp
next
  case Missing
  from Missing(4) show ?thesis
    by (cases rule: add_missing_file_cases) (use Missing(1) in \<open>auto split: if_splits\<close>)
next
  case (Existing dm)
  from Existing(4) show ?thesis
    by (cases rule: update_existing_file_cases) (use Existing(1) in \<open>auto split: if_splits\<close>)
qed

lemma process_source_file_stats_conj:
  assumes "process_source_file E d dry df (k, m) (st, pr, fs) = Inr (st', pr', fs')"
  shows "deleted_files st' = deleted_files st \<and> deleted st' = deleted st
    \<and> ignored_files st' = (if is_ignored k then ignored_files st @ [k] else ignored_files st)
    \<and> (added_files st' = added_files st
         \<or> (added_files st' = added_files st @ [k] \<and> \<not> is_ignored k \<and> map_of df k = None))
    \<and> (updated_files st' = updated_files st
         \<or> (updated_files st' = updated_files st @ [k] \<and> \<not> is_ignored k \<and> map_of df k \<noteq> None))
    \<and> pr' = (if is_ignored k then pr else insert k pr)
    \<and> (consistent st \<longrightarrow> consistent st')
    \<and> errors st \<le> errors st' \<and> unchanged st \<le> unchanged st'
    \<and> counted st' = counted st + 1
    \<and> (\<not> is_ignored k \<and> map_of df k = None \<longrightarrow> k \<in> set (added_files st') \<union> set (error_files st'))
    \<and> set (error_files st) \<subseteq> set (error_files st')
    \<and> set (added_files st) \<subseteq> set (added_files st')"
  using assms
proof (cases rule: process_source_file_cases)
  case Ignored
  then show ?thesis by (auto simp: count_defs consistent_def counted_def)
next
  case Missing
  from Missing(4) show ?thesis
    by (cases rule: add_missing_file_cases)
       (use Missing(1,2,3) in \<open>auto simp: count_defs consistent_def counted_def\<close>)
next
  case (Existing dm)
  from Existing(4) show ?thesis
    by (cases rule: update_existing_file_cases)
       (use Existing(1,2,3) in \<open>auto simp: count_defs consistent_def counted_def\<close>)
qed

lemma process_source_file_stats:
  assumes "process_source_file E d dry df (k, m) (st, pr, fs) = Inr (st', pr', fs')"
  shows "deleted_files st' = deleted_files st" "deleted st' = deleted st"
    "ignored_files st' = (if is_ignored k then ignored_files st @ [k] else ignored_files st)"
    "added_files st' = added_files st
       \<or> (added_files st' = added_files st @ [k] \<and> \<not> is_ignored k \<and> map_of df k = None)"
    "updated_files st' = updated_files st
       \<or> (updated_files st' = updated_files st @ [k] \<and> \<not> is_ignored k \<and> map_of df k \<noteq> None)"
    "pr' = (if is_ignored k then pr else insert k pr)"
    "consistent st \<Longrightarrow> consistent st'"
    "errors st \<le> errors st'" "unchanged st \<le> unchanged st'"
    "counted st' = counted st + 1"
    "\<not> is_ignored k \<Longrightarrow> map_of df k = None \<Longrightarrow> k \<in> set (added_files st') \<union> set (error_files st')"
    "set (error_files st) \<subseteq> set (error_files st')"
    "set (added_files st) \<subseteq> set (added_files st')"
  using process_source_file_stats_conj [OF assms] by blast+

lemma process_dest_file_fs:
  assumes "process_dest_file E dry pr (k, m) (st, fs) = (st', fs')"
  shows "fs' = fs \<or> (\<not> dry \<and> k \<notin> pr \<and> \<not> is_protected k \<and> os_remove E fs (path m) = Inr fs')"
  using assms
  by (cases rule: process_dest_file_cases) (auto split: if_splits)

lemma process_dest_file_stats_conj:
  assumes "process_dest_file E dry pr (k, m) (st, fs) = (st', fs')"
  shows "added_files st' = added_files st \<and> updated_files st' = updated_files st
    \<and> ignored_files st' = ignored_files st
    \<and> added st' = added st \<and> updated st' = updated st \<and> ignored st' = ignored st
    \<and> unchanged st' = unchanged st
    \<and> (deleted_files st' = deleted_files st
       \<or> (k \<notin> pr \<and> \<not> is_protected k
           \<and> deleted_files st' = deleted_files st @ [if dry then basename k else k]))
    \<and> (consistent st \<longrightarrow> consistent st')
    \<and> errors st \<le> errors st'
    \<and> set (error_files st) \<subseteq> set (error_files st')"
  using assms
  by (cases rule: process_dest_file_cases) (auto simp: count_defs consistent_def)

lemma process_dest_file_stats:
  assumes "process_dest_file E dry pr (k, m) (st, fs) = (st', fs')"
  shows "added_files st' = added_files st" "updated_files st' = updated_files st"
    "ignored_files st' = ignored_files st"
    "added st' = added st" "updated st' = updated st" "ignored st' = ignored st"
    "unchanged st' = unchanged st"
    "deleted_files st' = deleted_files st
       \<or> (k \<notin> pr \<and> \<not> is_protected k
           \<and> deleted_files st' = deleted_files st @ [if dry then basename k else k])"
    "consistent st \<Longrightarrow> consistent st'"
    "errors st \<le> errors st'"
    "set (error_files st) \<subseteq> set (error_files st')"
  using process_dest_file_stats_conj [OF assms] by blast+

subsection \<open>What the loops leave alone\<close>

lemma catalog_key_in_tree:
  assumes "k \<in> fst ` set (get_replica_files E d fs)"
  shows "read_file fs (d, k) \<noteq> None"
proof -
  from assms obtain t where t: "fs d = Some t" and k: "k \<in> fst ` set (scan_files E d t [])"
    by (cases "fs d") (auto simp: get_replica_files_def)
  from k obtain m where "(k, m) \<in> set (scan_files E d t [])" by auto
  from scan_files_entries [OF this] obtain f where "(k, f) \<in> set t" by auto
  then have "map_of t k \<noteq> None"
    by (metis map_of_eq_None_iff fst_conv image_eqI)
  with t show ?thesis by (simp add: read_file_def)
qed

lemma source_loop_read_other:
  assumes run: "source_loop E d dry df items (st, pr, fs) = (out, fs')"
      and cat: "catalog_of E r items"
      and other: "\<forall>k \<in> fst ` set items. is_ignored k \<or> loc \<noteq> (d, k)"
  shows "read_file fs' loc = read_file fs loc"
proof -
  let ?I = "\<lambda>(pre :: catalog) (s :: stats \<times> string set \<times> filesystem).
      read_file (snd (snd s)) loc = read_file fs loc"
  have "case out of Inr (st', pr') \<Rightarrow> ?I items (st', pr', fs')
        | Inl e \<Rightarrow> \<exists>pre x post st pr. items = pre @ x # post \<and> ?I pre (st, pr, fs')
            \<and> process_source_file E d dry df x (st, pr, fs') = Inl e"
  proof (rule source_loop_rule [where I = "?I", OF run])
    show "?I [] (st, pr, fs)" by simp
  next
    fix pre x post s s1
    assume items: "items = pre @ x # post" and I: "?I pre s"
      and step: "process_source_file E d dry df x s = Inr s1"
    obtain k m where x: "x = (k, m)" by (cases x)
    obtain st0 pr0 fs0 where s: "s = (st0, pr0, fs0)" by (cases s)
    obtain st1 pr1 fs1 where s1: "s1 = (st1, pr1, fs1)" by (cases s1)
    from items x have mem: "(k, m) \<in> set items" by simp
    from catalog_of_entry [OF cat mem] have rel: "relative_path m = k" by simp
    from other mem have o: "is_ignored k \<or> loc \<noteq> (d, k)" by force
    from process_source_file_fs [OF step [unfolded x s s1]] rel
    have "fs1 = fs0 \<or> (\<not> is_ignored k \<and> copy2 E fs0 (path m) (d, k) = Inr fs1)" by auto
    with o have "read_file fs1 loc = read_file fs0 loc"
      by (auto simp: copy2_read)
    with I s s1 show "?I (pre @ [x]) s1" by simp
  qed
  then show ?thesis by (auto split: sum.splits)
qed

lemma dest_loop_read_other:
  assumes run: "dest_loop E dry pr items (st, fs) = (st', fs')"
      and cat: "catalog_of E d items"
      and other: "\<forall>k \<in> fst ` set items. k \<in> pr \<or> is_protected k \<or> loc \<noteq> (d, k)"
  shows "read_file fs' loc = read_file fs loc"
proof -
  let ?I = "\<lambda>(pre :: catalog) (s :: stats \<times> filesystem). read_file (snd s) loc = read_file fs loc"
  have "?I items (dest_loop E dry pr items (st, fs))"
  proof (rule dest_loop_rule [where I = "?I"])
    show "?I [] (st, fs)" by simp
  next
    fix pre x post s
    assume items: "items = pre @ x # post" and I: "?I pre s"
    obtain k m where x: "x = (k, m)" by (cases x)
    obtain st0 fs0 where s: "s = (st0, fs0)" by (cases s)
    obtain st1 fs1 where s1: "process_dest_file E dry pr (k, m) (st0, fs0) = (st1, fs1)"
      by (cases "process_dest_file E dry pr (k, m) (st0, fs0)")
    from items x have mem: "(k, m) \<in> set items" by simp
    from catalog_of_entry [OF cat mem] have p: "path m = (d, k)" by simp
    from other mem have o: "k \<in> pr \<or> is_protected k \<or> loc \<noteq> (d, k)" by force
    from process_dest_file_fs [OF s1] p o have "read_file fs1 loc = read_file fs0 loc"
      by (auto simp: os_remove_read)
    with I s s1 x show "?I (pre @ [x]) (process_dest_file E dry pr x s)" by simp
  qed
  with run show ?thesis by simp
qed

lemma source_loop_deleted:
  assumes run: "source_loop E d dry df items (st, pr, fs) = (Inr (st', pr'), fs')"
  shows "deleted_files st' = deleted_files st \<and> (consistent st \<longrightarrow> consistent st')"
proof -
  let ?I = "\<lambda>(pre :: catalog) (s :: stats \<times> string set \<times> filesystem).
      deleted_files (fst s) = deleted_files st \<and> (consistent st \<longrightarrow> consistent (fst s))"
  have "case Inr (st', pr') of Inr (st', pr') \<Rightarrow> ?I items (st', pr', fs')
        | Inl e \<Rightarrow> \<exists>pre x post st pr. items = pre @ x # post \<and> ?I pre (st, pr, fs')
            \<and> process_source_file E d dry df x (st, pr, fs') = Inl e"
  proof (rule source_loop_rule [where I = "?I", OF run])
    show "?I [] (st, pr, fs)" by simp
  next
    fix pre x post s s1
    assume I: "?I pre s" and step: "process_source_file E d dry df x s = Inr s1"
    obtain k m where x: "x = (k, m)" by (cases x)
    obtain st0 pr0 fs0 where s: "s = (st0, pr0, fs0)" by (cases s)
    obtain st1 pr1 fs1 where s1: "s1 = (st1, pr1, fs1)" by (cases s1)
    note f = process_source_file_stats [OF step [unfolded x s s1]]
    from I s s1 f(1) f(7) show "?I (pre @ [x]) s1" by auto
  qed
  then show ?thesis by simp
qed

lemma dest_loop_deleted:
  assumes run: "dest_loop E dry pr items (st, fs) = (st', fs')"
  shows "set (deleted_files st') \<subseteq> set (deleted_files st)
            \<union> {x. \<exists>k \<in> fst ` set items. k \<notin> pr \<and> \<not> is_protected k \<and> (x = k \<or> x = basename k)}
         \<and> (consistent st \<longrightarrow> consistent st')"
proof -
  define D where
    "D = {x. \<exists>k \<in> fst ` set items. k \<notin> pr \<and> \<not> is_protected k \<and> (x = k \<or> x = basename k)}"
  let ?I = "\<lambda>(pre :: catalog) (s :: stats \<times> filesystem).
      set (deleted_files (fst s)) \<subseteq> set (deleted_files st) \<union> D
      \<and> (consistent st \<longrightarrow> consistent (fst s))"
  have "?I items (dest_loop E dry pr items (st, fs))"
  proof (rule dest_loop_rule [where I = "?I"])
    show "?I [] (st, fs)" by simp
  next
    fix pre x post s
    assume items: "items = pre @ x # post" and I: "?I pre s"
    obtain k m where x: "x = (k, m)" by (cases x)
    obtain st0 fs0 where s: "s = (st0, fs0)" by (cases s)
    obtain st1 fs1 where s1: "process_dest_file E dry pr (k, m) (st0, fs0) = (st1, fs1)"
      by (cases "process_dest_file E dry pr (k, m) (st0, fs0)")
    from items x have mem: "k \<in> fst ` set items" by force
    have kD: "k \<in> D \<and> basename k \<in> D" if "k \<notin> pr" "\<not> is_protected k"
      unfolding D_def using mem that by blast
    note f = process_dest_file_stats [OF s1]
    from f(8) have "set (deleted_files st1) \<subseteq> set (deleted_files st0) \<union> D"
    proof
      assume "deleted_files st1 = deleted_files st0"
      then show ?thesis by auto
    next
      assume a: "k \<notin> pr \<and> \<not> is_protected k
           \<and> deleted_files st1 = deleted_files st0 @ [if dry then basename k else k]"
      with kD have "(if dry then basename k else k) \<in> D" by simp
      with a show ?thesis by auto
    qed
    with I s have "set (deleted_files st1) \<subseteq> set (deleted_files st) \<union> D" by auto
    with I s s1 x f(9) show "?I (pre @ [x]) (process_dest_file E dry pr x s)" by simp
  qed
  with run show ?thesis unfolding D_def by simp
qed

subsection \<open>Protected files\<close>

text \<open>
  Claim C3. A file named \<open>metadata.db\<close> or \<open>metadata_db_prefs_backup.json\<close> that is
  in the destination catalog and not in the source catalog is still in the destination,
  unchanged, after \<open>sync_folder\<close>, in dry-run mode or not and whether the run
  returns or raises. When the run returns, neither its relative path nor its file name
  is in the list of deleted files, whose length is the deleted count; the second loop
  leaves statistics and file system as they are when it meets the file.
\<close>

theorem C3_protected_file_survives:
  assumes present: "p \<in> fst ` set (get_replica_files E d fs)"
      and absent: "p \<notin> fst ` set (get_calibre_files E self fs)"
      and name: "basename p = ''metadata.db'' \<or> basename p = ''metadata_db_prefs_backup.json''"
      and run: "sync_folder E self d dry fs = (out, fs')"
  shows "read_file fs (d, p) \<noteq> None \<and> read_file fs' (d, p) = read_file fs (d, p)
       \<and> (\<forall>st. out = Inr st \<longrightarrow>
             p \<notin> set (deleted_files st) \<and> basename p \<notin> set (deleted_files st)
             \<and> deleted st = int (length (deleted_files st)))
       \<and> (\<forall>pr m st0 fs0. process_dest_file E dry pr (p, m) (st0, fs0) = (st0, fs0))"
proof -
  from name have prot: "is_protected p" by (simp add: is_protected_def)
  have ex: "read_file fs (d, p) \<noteq> None"
    using present by (rule catalog_key_in_tree)
  have step: "\<forall>pr m st0 fs0. process_dest_file E dry pr (p, m) (st0, fs0) = (st0, fs0)"
    using prot by (simp add: process_dest_file_def)
  have src_other: "\<forall>k \<in> fst ` set (get_calibre_files E self fs). is_ignored k \<or> (d, p) \<noteq> (d, k)"
    using absent by auto
  have dst_other: "\<forall>k \<in> fst ` set (get_replica_files E d fs).
      k \<in> pr \<or> is_protected k \<or> (d, p) \<noteq> (d, k)" for pr
    using prot by auto
  have main: "read_file fs' (d, p) = read_file fs (d, p)
       \<and> (\<forall>st. out = Inr st \<longrightarrow>
             p \<notin> set (deleted_files st) \<and> basename p \<notin> set (deleted_files st)
             \<and> deleted st = int (length (deleted_files st)))"
    using run
  proof (cases rule: sync_folder_cases)
    case (Mkdir_failed e)
    then show ?thesis by simp
  next
    case (Raised e)
    from source_loop_read_other [OF Raised(1) catalog_of_calibre src_other]
    show ?thesis using Raised(2) by (simp add: created_read)
  next
    case (Returned st pr fs2 st')
    from source_loop_read_other [OF Returned(1) catalog_of_calibre src_other]
    have r1: "read_file fs2 (d, p) = read_file fs (d, p)" by (simp add: created_read)
    from dest_loop_read_other [OF Returned(2) catalog_of_replica dst_other]
    have r2: "read_file fs' (d, p) = read_file fs2 (d, p)" .
    from source_loop_deleted [OF Returned(1)]
    have d1: "deleted_files st = []" "consistent st"
      by (simp_all add: empty_stats_def consistent_def)
    from dest_loop_deleted [OF Returned(2)] d1
    have d2: "set (deleted_files st') \<subseteq>
        {x. \<exists>k \<in> fst ` set (get_replica_files E d fs).
              k \<notin> pr \<and> \<not> is_protected k \<and> (x = k \<or> x = basename k)}"
      and c2: "consistent st'" by auto
    have nd: "x \<notin> set (deleted_files st')" if "x = p \<or> x = basename p" for x
    proof
      assume "x \<in> set (deleted_files st')"
      with d2 obtain k where "\<not> is_protected k" "x = k \<or> x = basename k" by blast
      with protected_name_cases [OF prot, of k] that show False by auto
    qed
    then have "p \<notin> set (deleted_files st')" "basename p \<notin> set (deleted_files st')"
      by simp_all
    with r1 r2 c2 Returned(3) show ?thesis by (simp add: consistent_def)
  qed
  from ex main step show ?thesis by blast
qed

lemmas path_defs = basename_def dirname_def splitext_ext_def lower_def lower_char_def
  startswith_dot_def is_ignored_def is_protected_def

lemmas example_defs = env_ok_def library_service_def fs_example_def

lemma example_source_catalog:
  "get_calibre_files env_ok library_service fs_example =
     [(''book1/book1.epub'', meta_of ''/lib'' ''book1/book1.epub'' \<lparr>content = ''abc'', st_mtime = 5\<rparr>),
      (''notes.json'', meta_of ''/lib'' ''notes.json'' \<lparr>content = ''x'', st_mtime = 6\<rparr>),
      (''metadata.db'', meta_of ''/lib'' ''metadata.db'' \<lparr>content = ''db'', st_mtime = 7\<rparr>)]"
  by (simp add: get_calibre_files_def example_defs path_defs meta_of_def)

lemma example_dest_catalog:
  "get_replica_files env_ok ''/r1'' fs_example =
     [(''book1/book1.epub'', meta_of ''/r1'' ''book1/book1.epub'' \<lparr>content = ''abc'', st_mtime = 9\<rparr>),
      (''book2/book2.epub'', meta_of ''/r1'' ''book2/book2.epub'' \<lparr>content = ''zzz'', st_mtime = 5\<rparr>),
      (''cfg/metadata_db_prefs_backup.json'',
         meta_of ''/r1'' ''cfg/metadata_db_prefs_backup.json'' \<lparr>content = ''pp'', st_mtime = 5\<rparr>)]"
  by (simp add: get_replica_files_def example_defs path_defs meta_of_def)

subsection \<open>What the loops list\<close>


lemma dest_loop_lists:
  assumes run: "dest_loop E dry pr items (st, fs) = (st', fs')"
  shows "added_files st' = added_files st \<and> updated_files st' = updated_files st
       \<and> ignored_files st' = ignored_files st
       \<and> added st' = added st \<and> updated st' = updated st \<and> ignored st' = ignored st
       \<and> unchanged st' = unchanged st
       \<and> set (error_files st) \<subseteq> set (error_files st')
       \<and> errors st \<le> errors st'"
proof -
  let ?I = "\<lambda>(pre :: catalog) (s :: stats \<times> filesystem).
      added_files (fst s) = added_files st \<and> updated_files (fst s) = updated_files st
       \<and> ignored_files (fst s) = ignored_files st
       \<and> added (fst s) = added st \<and> updated (fst s) = updated st \<and> ignored (fst s) = ignored st
       \<and> unchanged (fst s) = unchanged st
       \<and> set (error_files st) \<subseteq> set (error_files (fst s))
       \<and> errors st \<le> errors (fst s)"
  have "?I items (dest_loop E dry pr items (st, fs))"
  proof (rule dest_loop_rule [where I = "?I"])
    show "?I [] (st, fs)" by simp
  next
    fix pre x post s
    assume items: "items = pre @ x # post" and I: "?I pre s"
    obtain k m where x: "x = (k, m)" by (cases x)
    obtain st0 fs0 where s: "s = (st0, fs0)" by (cases s)
    obtain st1 fs1 where s1: "process_dest_file E dry pr (k, m) (st0, fs0) = (st1, fs1)"
      by (cases "process_dest_file E dry pr (k, m) (st0, fs0)")
    note f = process_dest_file_stats [OF s1]
    from I s f(1-7) f(10) f(11) have "?I (pre @ [x]) (st1, fs1)" by auto
    with s s1 x show "?I (pre @ [x]) (process_dest_file E dry pr x s)" by simp
  qed
  with run show ?thesis by simp
qed


lemmas sync_defs = sync_folder_def get_calibre_files_def get_replica_files_def
  process_source_file_def add_missing_file_def update_existing_file_def process_dest_file_def
  get_destination_path_def calculate_file_hash_def copy2_def os_remove_def read_file_def
  empty_stats_def count_defs path_defs Let_def

subsection \<open>Ignored files\<close>


subsection \<open>The example runs\<close>

lemma example_real_run:
  "fst (sync_folder env_ok library_service ''/r1'' False fs_example) =
     Inr \<lparr>added = 1, updated = 0, deleted = 1, unchanged = 1, ignored = 1, errors = 0,
          added_files = [''metadata.db''], updated_files = [],
          deleted_files = [''book2/book2.epub''], ignored_files = [''notes.json''],
          error_files = []\<rparr>"
  by (simp add: sync_defs example_defs)

lemma example_dry_run:
  "fst (sync_folder env_ok library_service ''/r1'' True fs_example) =
     Inr \<lparr>added = 1, updated = 0, deleted = 1, unchanged = 1, ignored = 1, errors = 0,
          added_files = [''metadata.db''], updated_files = [],
          deleted_files = [''book2.epub''], ignored_files = [''notes.json''],
          error_files = []\<rparr>"
  by (simp add: sync_defs example_defs)



lemma example_pairs:
  "sync_folder E self d dry fs = (fst (sync_folder E self d dry fs), snd (sync_folder E self d dry fs))"
  by simp

text \<open>
  Claim C3 in the example: the protected file of the replica, which the library does
  not have, is there after a run as it was before, and is not listed as deleted.
\<close>

theorem C3_protected_file_survives_witness:
  "read_file (snd (sync_folder env_ok library_service ''/r1'' False fs_example))
     (''/r1'', ''cfg/metadata_db_prefs_backup.json'') = Some \<lparr>content = ''pp'', st_mtime = 5\<rparr>
   \<and> ''cfg/metadata_db_prefs_backup.json''
        \<notin> set (deleted_files (projr (fst (sync_folder env_ok library_service ''/r1'' False fs_example))))
   \<and> ''metadata_db_prefs_backup.json''
        \<notin> set (deleted_files (projr (fst (sync_folder env_ok library_service ''/r1'' False fs_example))))"
proof -
  have present: "''cfg/metadata_db_prefs_backup.json''
      \<in> fst ` set (get_replica_files env_ok ''/r1'' fs_example)"
    by (simp add: example_dest_catalog)
  have absent: "''cfg/metadata_db_prefs_backup.json''
      \<notin> fst ` set (get_calibre_files env_ok library_service fs_example)"
    by (simp add: example_source_catalog)
  have name: "basename ''cfg/metadata_db_prefs_backup.json'' = ''metadata.db''
      \<or> basename ''cfg/metadata_db_prefs_backup.json'' = ''metadata_db_prefs_backup.json''"
    by (simp add: basename_def)
  have b: "basename ''cfg/metadata_db_prefs_backup.json'' = ''metadata_db_prefs_backup.json''"
    by (simp add: basename_def)
  have before: "read_file fs_example (''/r1'', ''cfg/metadata_db_prefs_backup.json'')
      = Some \<lparr>content = ''pp'', st_mtime = 5\<rparr>"
    by (simp add: read_file_def fs_example_def)
  from C3_protected_file_survives [OF present absent name example_pairs] before b
    example_real_run
  show ?thesis by simp
qed



subsection \<open>Dry runs\<close>

lemma source_loop_dry:
  assumes run: "source_loop E d True df items (st, pr, fs) = (out, fs')"
  shows "fs' = fs"
proof -
  let ?I = "\<lambda>(pre :: catalog) (s :: stats \<times> string set \<times> filesystem). snd (snd s) = fs"
  have "case out of Inr (st', pr') \<Rightarrow> ?I items (st', pr', fs')
        | Inl e \<Rightarrow> \<exists>pre x post st pr. items = pre @ x # post \<and> ?I pre (st, pr, fs')
            \<and> process_source_file E d True df x (st, pr, fs') = Inl e"
  proof (rule source_loop_rule [where I = "?I", OF run])
    show "?I [] (st, pr, fs)" by simp
  next
    fix pre x post s s1
    assume I: "?I pre s" and step: "process_source_file E d True df x s = Inr s1"
    obtain k m where x: "x = (k, m)" by (cases x)
    obtain st0 pr0 fs0 where s: "s = (st0, pr0, fs0)" by (cases s)
    obtain st1 pr1 fs1 where s1: "s1 = (st1, pr1, fs1)" by (cases s1)
    from process_source_file_fs [OF step [unfolded x s s1]] have "fs1 = fs0" by simp
    with I s s1 show "?I (pre @ [x]) s1" by simp
  qed
  then show ?thesis by (auto split: sum.splits)
qed

lemma dest_loop_dry:
  assumes run: "dest_loop E True pr items (st, fs) = (st', fs')"
  shows "fs' = fs"
proof -
  let ?I = "\<lambda>(pre :: catalog) (s :: stats \<times> filesystem). snd s = fs"
  have "?I items (dest_loop E True pr items (st, fs))"
  proof (rule dest_loop_rule [where I = "?I"])
    show "?I [] (st, fs)" by simp
  next
    fix pre x post s
    assume items: "items = pre @ x # post" and I: "?I pre s"
    obtain k m where x: "x = (k, m)" by (cases x)
    obtain st0 fs0 where s: "s = (st0, fs0)" by (cases s)
    obtain st1 fs1 where s1: "process_dest_file E True pr (k, m) (st0, fs0) = (st1, fs1)"
      by (cases "process_dest_file E True pr (k, m) (st0, fs0)")
    from process_dest_file_fs [OF s1] have "fs1 = fs0" by simp
    with I s s1 x show "?I (pre @ [x]) (process_dest_file E True pr x s)" by simp
  qed
  with run show ?thesis by simp
qed

lemma sync_folder_dry_run_fs: "snd (sync_folder E self d True fs) = fs"
proof -
  have "sync_folder E self d True fs
      = (fst (sync_folder E self d True fs), snd (sync_folder E self d True fs))"
    by simp
  then show ?thesis
  proof (cases rule: sync_folder_cases)
    case (Mkdir_failed e)
    then show ?thesis by simp
  next
    case (Raised e)
    from source_loop_dry [OF Raised(1)] show ?thesis by (simp add: created_dry)
  next
    case (Returned st pr fs2 st')
    from source_loop_dry [OF Returned(1)] have "fs2 = fs" by (simp add: created_dry)
    with dest_loop_dry [OF Returned(2)] show ?thesis by simp
  qed
qed

text \<open>
  Claim C1 fails on the code. A dry run leaves the file system as it is, but its list
  of deleted files holds file names where a real run lists relative paths: for the
  orphan \<open>book2/book2.epub\<close> of the example, with no failing operation, the dry run
  reports \<open>book2.epub\<close> and the real run reports \<open>book2/book2.epub\<close>.
\<close>

theorem C1_dry_run_lists_file_names:
  "snd (sync_folder env_ok library_service ''/r1'' True fs_example) = fs_example
   \<and> deleted_files (projr (fst (sync_folder env_ok library_service ''/r1'' True fs_example)))
       = [''book2.epub'']
   \<and> deleted_files (projr (fst (sync_folder env_ok library_service ''/r1'' False fs_example)))
       = [''book2/book2.epub'']
   \<and> errors (projr (fst (sync_folder env_ok library_service ''/r1'' False fs_example))) = 0
   \<and> fst (sync_folder env_ok library_service ''/r1'' True fs_example)
       \<noteq> fst (sync_folder env_ok library_service ''/r1'' False fs_example)"
  by (simp add: sync_folder_dry_run_fs example_real_run example_dry_run)

subsection \<open>All replicas\<close>
lemma sync_all_loop_append:
  "sync_all_loop E self dry (rs1 @ rs2) state =
     sync_all_loop E self dry rs2 (sync_all_loop E self dry rs1 state)"
  by (induction rs1 arbitrary: state) (auto split: prod.splits)

lemma sync_all_loop_keys:
  "fst ` set (fst (sync_all_loop E self dry rs state)) = fst ` set (fst state) \<union> set rs"
proof (induction rs arbitrary: state)
  case Nil
  show ?case by simp
next
  case (Cons r rs)
  obtain out fs' where sf: "sync_folder E self r dry (snd state) = (out, fs')"
    by (cases "sync_folder E self r dry (snd state)")
  show ?case
    using Cons.IH [of "(AList.update r out (fst state), fs')"] sf
    by (simp add: dom_update)
qed

lemma sync_all_loop_distinct:
  "distinct (map fst (fst state)) \<Longrightarrow> distinct (map fst (fst (sync_all_loop E self dry rs state)))"
proof (induction rs arbitrary: state)
  case Nil
  then show ?case by simp
next
  case (Cons r rs)
  obtain out fs' where sf: "sync_folder E self r dry (snd state) = (out, fs')"
    by (cases "sync_folder E self r dry (snd state)")
  from Cons.prems have "distinct (map fst (AList.update r out (fst state)))"
    by (simp add: distinct_update)
  then show ?case
    using Cons.IH [of "(AList.update r out (fst state), fs')"] sf by simp
qed

lemma sync_all_loop_other:
  "r \<notin> set rs \<Longrightarrow> map_of (fst (sync_all_loop E self dry rs state)) r = map_of (fst state) r"
proof (induction rs arbitrary: state)
  case Nil
  show ?case by simp
next
  case (Cons q rs)
  obtain out fs' where sf: "sync_folder E self q dry (snd state) = (out, fs')"
    by (cases "sync_folder E self q dry (snd state)")
  from Cons.prems have "r \<noteq> q" "r \<notin> set rs" by auto
  then show ?case
    using Cons.IH [of "(AList.update q out (fst state), fs')"] sf
    by (simp add: update_conv')
qed

text \<open>
  Claim C8. When \<open>sync_folder\<close> raises for a replica of the configured list,
  \<open>sync_all\<close> records the message of the exception under that replica and goes on
  with the replicas after it, from the file system that the failed run left. The
  recorded error is the result for that replica unless the list names the replica again
  later; the results recorded before for other replicas are kept; and the returned
  dictionary has exactly the configured replicas as keys, each once.
\<close>

theorem C8_sync_all_isolates_failure:
  assumes "replica_paths self = rs1 @ r # rs2"
      and "sync_all_loop E self dry rs1 ([], fs) = (res1, fs1)"
      and "sync_folder E self r dry fs1 = (Inl msg, fs2)"
  shows "sync_all E self dry fs = sync_all_loop E self dry rs2 (AList.update r (Inl msg) res1, fs2)
       \<and> (r \<notin> set rs2 \<longrightarrow> map_of (fst (sync_all E self dry fs)) r = Some (Inl msg))
       \<and> (\<forall>q. q \<noteq> r \<and> q \<notin> set rs2 \<longrightarrow> map_of (fst (sync_all E self dry fs)) q = map_of res1 q)
       \<and> fst ` set (fst (sync_all E self dry fs)) = set (replica_paths self)
       \<and> distinct (map fst (fst (sync_all E self dry fs)))"
proof -
  have eq: "sync_all E self dry fs = sync_all_loop E self dry rs2 (AList.update r (Inl msg) res1, fs2)"
    using assms by (simp add: sync_all_def sync_all_loop_append)
  have look: "r \<notin> set rs2 \<longrightarrow> map_of (fst (sync_all E self dry fs)) r = Some (Inl msg)"
    unfolding eq by (simp add: sync_all_loop_other update_conv')
  have others: "\<forall>q. q \<noteq> r \<and> q \<notin> set rs2 \<longrightarrow> map_of (fst (sync_all E self dry fs)) q = map_of res1 q"
    unfolding eq by (simp add: sync_all_loop_other update_conv')
  have keys: "fst ` set (fst (sync_all E self dry fs)) = set (replica_paths self)"
    by (simp add: sync_all_def sync_all_loop_keys)
  have dist: "distinct (map fst (fst (sync_all E self dry fs)))"
    unfolding sync_all_def by (rule sync_all_loop_distinct) simp
  from eq look others keys dist show ?thesis by blast
qed

lemma denied_first_replica:
  "sync_folder env_denied library_service ''/r1'' False fs_library_only
     = (Inl ''Permission denied'', fs_library_only)"
  by (simp add: sync_folder_def env_denied_def env_ok_def fs_library_only_def)

lemma denied_second_replica:
  "fst (sync_folder env_denied library_service ''/r2'' False fs_library_only) =
     Inr \<lparr>added = 1, updated = 0, deleted = 0, unchanged = 0, ignored = 0, errors = 0,
          added_files = [''a.txt''], updated_files = [], deleted_files = [],
          ignored_files = [], error_files = []\<rparr>"
  by (simp add: sync_defs env_denied_def env_ok_def fs_library_only_def library_service_def)

text \<open>
  Claim C8 in the example: the first replica cannot be created, its result is the error,
  and the second replica is synchronised all the same.
\<close>

theorem C8_sync_all_isolates_failure_witness:
  "map_of (fst (sync_all env_denied library_service False fs_library_only)) ''/r1''
     = Some (Inl ''Permission denied'')
   \<and> map_of (fst (sync_all env_denied library_service False fs_library_only)) ''/r2''
     = Some (Inr \<lparr>added = 1, updated = 0, deleted = 0, unchanged = 0, ignored = 0, errors = 0,
          added_files = [''a.txt''], updated_files = [], deleted_files = [],
          ignored_files = [], error_files = []\<rparr>)
   \<and> map fst (fst (sync_all env_denied library_service False fs_library_only)) = [''/r1'', ''/r2'']"
proof -
  have paths: "replica_paths library_service = [] @ ''/r1'' # [''/r2'']"
    by (simp add: library_service_def)
  have before: "sync_all_loop env_denied library_service False [] ([], fs_library_only)
      = ([], fs_library_only)"
    by simp
  obtain fs2 where second: "sync_folder env_denied library_service ''/r2'' False fs_library_only
      = (Inr \<lparr>added = 1, updated = 0, deleted = 0, unchanged = 0, ignored = 0, errors = 0,
          added_files = [''a.txt''], updated_files = [], deleted_files = [],
          ignored_files = [], error_files = []\<rparr>, fs2)"
    using denied_second_replica
    by (cases "sync_folder env_denied library_service ''/r2'' False fs_library_only") simp
  from C8_sync_all_isolates_failure [OF paths before denied_first_replica] second
  show ?thesis by simp
qed

subsection \<open>Same content\<close>

lemma update_existing_file_same_content:
  assumes "calculate_file_hash E fs (path sm) = Inr h" "calculate_file_hash E fs (path dm) = Inr h"
  shows "update_existing_file E dry k sm dm dp st fs = Inr (count_unchanged st, fs)"
  using assms by (simp add: update_existing_file_def)

lemma process_source_file_same_content:
  assumes "\<not> is_ignored k" "map_of df k = Some dm"
      and "calculate_file_hash E fs (path sm) = Inr h" "calculate_file_hash E fs (path dm) = Inr h"
  shows "dry \<or> makedirs_error E (d, dirname (relative_path sm)) = None \<Longrightarrow>
           process_source_file E d dry df (k, sm) (st, pr, fs)
             = Inr (count_unchanged st, insert k pr, fs)"
    and "process_source_file E d dry df (k, sm) (st, pr, fs) = Inr s1 \<Longrightarrow>
           s1 = (count_unchanged st, insert k pr, fs)"
  using assms(1,2) update_existing_file_same_content [OF assms(3,4)]
  by (auto simp: process_source_file_def get_destination_path_def Let_def
        split: option.splits if_splits)

text \<open>
  Claim C2, as amended. A path that is not ignored and is in both catalogs with equal
  sizes, modification times more than a second apart and equal hashes of the two files
  is counted as unchanged: the body of the first loop adds one to the unchanged count
  and changes nothing else (outside dry-run mode, provided the parent directories of
  the destination could be created). After the run the destination file is as it was,
  and when the run returns, the path is not listed as updated or added and the
  unchanged count is at least one.
\<close>

theorem C2_same_content_is_unchanged:
  assumes src: "map_of (get_calibre_files E self fs) k = Some sm"
      and dst: "map_of (get_replica_files E d fs) k = Some dm"
      and not_ignored: "\<not> is_ignored k"
      and size: "fsize sm = fsize dm"
      and time: "\<bar>mtime sm - mtime dm\<bar> > 1"
      and source_hash: "calculate_file_hash E fs (path sm) = Inr h"
      and dest_hash: "calculate_file_hash E fs (path dm) = Inr h"
      and run: "sync_folder E self d dry fs = (out, fs')"
  shows "read_file fs' (d, k) = read_file fs (d, k)
       \<and> (\<forall>st. out = Inr st \<longrightarrow>
             k \<notin> set (updated_files st) \<and> k \<notin> set (added_files st) \<and> 1 \<le> unchanged st)
       \<and> (\<forall>st pr. dry \<or> makedirs_error E (d, dirname k) = None \<longrightarrow>
             process_source_file E d dry (get_replica_files E d fs) (k, sm)
                 (st, pr, created dry d fs)
               = Inr (count_unchanged st, insert k pr, created dry d fs))"
proof -
  let ?S = "get_calibre_files E self fs"
  let ?D = "get_replica_files E d fs"
  let ?src = "source_path self"
  from src have memS: "(k, sm) \<in> set ?S" by (rule map_of_SomeD)
  from dst have memD: "(k, dm) \<in> set ?D" by (rule map_of_SomeD)
  from catalog_of_entry [OF catalog_of_calibre memS]
  have sm: "relative_path sm = k" "path sm = (?src, k)" by simp_all
  from catalog_of_entry [OF catalog_of_replica memD]
  have dm: "path dm = (d, k)" by simp
  have hash_eq: "calculate_file_hash E fs0 (path sm) = Inr h
      \<and> calculate_file_hash E fs0 (path dm) = Inr h"
    if "read_file fs0 (d, k) = read_file fs (d, k)"
       "read_file fs0 (?src, k) = read_file fs (?src, k)" for fs0
    using that source_hash dest_hash sm dm calculate_file_hash_cong [of fs0 _ fs E] by simp
  have step: "\<forall>st pr. dry \<or> makedirs_error E (d, dirname k) = None \<longrightarrow>
             process_source_file E d dry ?D (k, sm) (st, pr, created dry d fs)
               = Inr (count_unchanged st, insert k pr, created dry d fs)"
  proof (intro allI impI)
    fix st pr assume mk: "dry \<or> makedirs_error E (d, dirname k) = None"
    have "calculate_file_hash E (created dry d fs) (path sm) = Inr h
      \<and> calculate_file_hash E (created dry d fs) (path dm) = Inr h"
      by (rule hash_eq) (simp_all add: created_read)
    with process_source_file_same_content(1) [where E = E and fs = "created dry d fs" and sm = sm
        and h = h and dry = dry and d = d and st = st and pr = pr, OF not_ignored dst]
      mk sm
    show "process_source_file E d dry ?D (k, sm) (st, pr, created dry d fs)
               = Inr (count_unchanged st, insert k pr, created dry d fs)"
      by simp
  qed
  let ?I = "\<lambda>(pre :: catalog) (s :: stats \<times> string set \<times> filesystem).
      read_file (snd (snd s)) (d, k) = read_file fs (d, k)
      \<and> read_file (snd (snd s)) (?src, k) = read_file fs (?src, k)
      \<and> k \<notin> set (updated_files (fst s)) \<and> k \<notin> set (added_files (fst s))
      \<and> 0 \<le> unchanged (fst s)
      \<and> (k \<in> fst ` set pre \<longrightarrow> 1 \<le> unchanged (fst s) \<and> k \<in> fst (snd s))"
  have loop: "case lo of Inr (st', pr') \<Rightarrow> ?I ?S (st', pr', fs2)
        | Inl e \<Rightarrow> \<exists>pre x post st pr. ?S = pre @ x # post \<and> ?I pre (st, pr, fs2)
            \<and> process_source_file E d dry ?D x (st, pr, fs2) = Inl e"
    if run1: "source_loop E d dry ?D ?S (empty_stats, {}, created dry d fs) = (lo, fs2)"
    for lo fs2
  proof (rule source_loop_rule [where I = "?I", OF run1])
    show "?I [] (empty_stats, {}, created dry d fs)"
      by (simp add: created_read empty_stats_def)
  next
    fix pre x post s s1
    assume items: "?S = pre @ x # post" and I: "?I pre s"
      and st: "process_source_file E d dry ?D x s = Inr s1"
    obtain k' m' where x: "x = (k', m')" by (cases x)
    obtain st0 pr0 fs0 where s: "s = (st0, pr0, fs0)" by (cases s)
    obtain st1 pr1 fs1 where s1: "s1 = (st1, pr1, fs1)" by (cases s1)
    from items x have mem: "(k', m') \<in> set ?S" by simp
    note ce = catalog_of_entry [OF catalog_of_calibre mem]
    from I s have I0: "read_file fs0 (d, k) = read_file fs (d, k)"
      "read_file fs0 (?src, k) = read_file fs (?src, k)"
      "k \<notin> set (updated_files st0)" "k \<notin> set (added_files st0)" "0 \<le> unchanged st0"
      "k \<in> fst ` set pre \<longrightarrow> 1 \<le> unchanged st0 \<and> k \<in> pr0"
      by simp_all
    show "?I (pre @ [x]) s1"
    proof (cases "k' = k")
      case True
      with ce src have "m' = sm" by simp
      from process_source_file_same_content(2) [where E = E and fs = fs0 and sm = sm
          and h = h and dry = dry and d = d and st = st0 and pr = pr0 and ?s1.0 = s1,
          OF not_ignored dst] hash_eq [OF I0(1,2)] st x s True \<open>m' = sm\<close>
      have "s1 = (count_unchanged st0, insert k pr0, fs0)" by simp
      with I0 x True show ?thesis by (simp add: count_unchanged_def)
    next
      case False
      note f = process_source_file_stats [OF st [unfolded x s s1]]
      from process_source_file_fs [OF st [unfolded x s s1]] ce
      have "fs1 = fs0 \<or> copy2 E fs0 (path m') (d, k') = Inr fs1" by auto
      with False have r: "read_file fs1 (d, k) = read_file fs0 (d, k)"
        "read_file fs1 (?src, k) = read_file fs0 (?src, k)"
        by (auto simp: copy2_read)
      from f(4) f(5) False I0 have l: "k \<notin> set (updated_files st1)" "k \<notin> set (added_files st1)"
        by auto
      from f(9) I0 have u: "0 \<le> unchanged st1"
        "k \<in> fst ` set pre \<Longrightarrow> 1 \<le> unchanged st1" by (auto split: if_splits)
      from f(6) I0 have p: "k \<in> fst ` set pre \<Longrightarrow> k \<in> pr1" by (auto split: if_splits)
      from r l u p I0 False x s1 show ?thesis by auto
    qed
  qed
  have main: "read_file fs' (d, k) = read_file fs (d, k)
       \<and> (\<forall>st. out = Inr st \<longrightarrow>
             k \<notin> set (updated_files st) \<and> k \<notin> set (added_files st) \<and> 1 \<le> unchanged st)"
    using run
  proof (cases rule: sync_folder_cases)
    case (Mkdir_failed e)
    then show ?thesis by simp
  next
    case (Raised e)
    from loop [OF Raised(1)] Raised(2) show ?thesis by auto
  next
    case (Returned st pr fs2 st')
    from memS have kS: "k \<in> fst ` set ?S" by force
    from loop [OF Returned(1)] kS
    have a: "read_file fs2 (d, k) = read_file fs (d, k)" "k \<notin> set (updated_files st)"
      "k \<notin> set (added_files st)" "1 \<le> unchanged st" "k \<in> pr"
      by simp_all
    have "\<forall>k' \<in> fst ` set ?D. k' \<in> pr \<or> is_protected k' \<or> (d, k) \<noteq> (d, k')"
      using a(5) by auto
    from dest_loop_read_other [OF Returned(2) catalog_of_replica this] a(1)
    have r: "read_file fs' (d, k) = read_file fs (d, k)" by simp
    note b = dest_loop_lists [OF Returned(2)]
    from a b r Returned(3) show ?thesis by simp
  qed
  from main step show ?thesis by simp
qed

text \<open>
  The amended claim C2 in the example: the book is in both trees with the same bytes
  and modification times 5 and 9.
\<close>

theorem C2_same_content_is_unchanged_witness:
  "read_file (snd (sync_folder env_ok library_service ''/r1'' False fs_example))
     (''/r1'', ''book1/book1.epub'') = Some \<lparr>content = ''abc'', st_mtime = 9\<rparr>
   \<and> ''book1/book1.epub''
        \<notin> set (updated_files (projr (fst (sync_folder env_ok library_service ''/r1'' False fs_example))))
   \<and> 1 \<le> unchanged (projr (fst (sync_folder env_ok library_service ''/r1'' False fs_example)))"
proof -
  let ?sm = "meta_of ''/lib'' ''book1/book1.epub'' \<lparr>content = ''abc'', st_mtime = 5\<rparr>"
  let ?dm = "meta_of ''/r1'' ''book1/book1.epub'' \<lparr>content = ''abc'', st_mtime = 9\<rparr>"
  have src: "map_of (get_calibre_files env_ok library_service fs_example) ''book1/book1.epub''
      = Some ?sm"
    by (simp add: example_source_catalog)
  have dst: "map_of (get_replica_files env_ok ''/r1'' fs_example) ''book1/book1.epub'' = Some ?dm"
    by (simp add: example_dest_catalog)
  have ni: "\<not> is_ignored ''book1/book1.epub''"
    by (simp add: path_defs)
  have size: "fsize ?sm = fsize ?dm"
    by (simp add: meta_of_def)
  have time: "\<bar>mtime ?sm - mtime ?dm\<bar> > 1"
    by (simp add: meta_of_def)
  have h1: "calculate_file_hash env_ok fs_example (path ?sm) = Inr ''abc''"
    by (simp add: meta_of_def calculate_file_hash_def read_file_def example_defs)
  have h2: "calculate_file_hash env_ok fs_example (path ?dm) = Inr ''abc''"
    by (simp add: meta_of_def calculate_file_hash_def read_file_def example_defs)
  have before: "read_file fs_example (''/r1'', ''book1/book1.epub'')
      = Some \<lparr>content = ''abc'', st_mtime = 9\<rparr>"
    by (simp add: read_file_def fs_example_def)
  from C2_same_content_is_unchanged [OF src dst ni size time h1 h2 example_pairs]
    before example_real_run
  show ?thesis by simp
qed

lemma json_real_run:
  "fst (sync_folder env_ok library_service ''/r1'' False fs_json) =
     Inr \<lparr>added = 0, updated = 0, deleted = 1, unchanged = 0, ignored = 1, errors = 0,
          added_files = [], updated_files = [], deleted_files = [''notes.json''],
          ignored_files = [''notes.json''], error_files = []\<rparr>"
  by (simp add: sync_defs fs_json_def env_ok_def library_service_def)

text \<open>
  Claim C2 as stated fails for a path with an ignored extension: \<open>notes.json\<close> is in
  both catalogs with equal sizes, modification times 6 and 1 and equal hashes, and the
  run counts it as ignored, not as unchanged.
\<close>

theorem C2_ignored_path_is_not_unchanged:
  "map_of (get_calibre_files env_ok library_service fs_json) ''notes.json''
     = Some (meta_of ''/lib'' ''notes.json'' \<lparr>content = ''x'', st_mtime = 6\<rparr>)
   \<and> map_of (get_replica_files env_ok ''/r1'' fs_json) ''notes.json''
     = Some (meta_of ''/r1'' ''notes.json'' \<lparr>content = ''x'', st_mtime = 1\<rparr>)
   \<and> calculate_file_hash env_ok fs_json (''/lib'', ''notes.json'') = Inr ''x''
   \<and> calculate_file_hash env_ok fs_json (''/r1'', ''notes.json'') = Inr ''x''
   \<and> unchanged (projr (fst (sync_folder env_ok library_service ''/r1'' False fs_json))) = 0
   \<and> ignored_files (projr (fst (sync_folder env_ok library_service ''/r1'' False fs_json)))
       = [''notes.json'']"
  by (simp add: json_real_run)
     (simp add: get_calibre_files_def get_replica_files_def calculate_file_hash_def read_file_def
        fs_json_def env_ok_def library_service_def path_defs meta_of_def)

section \<open>A second run\<close>

subsection \<open>Catalogs and files\<close>








subsection \<open>Roots\<close>





subsection \<open>The first run\<close>





subsection \<open>The second run\<close>





subsection \<open>Idempotence\<close>






end
